theory Spec2Isabelle
  imports Main "HOL-Library.AList" "HOL-Library.Char_ord" "HOL-Library.List_Lexorder"
begin

section \<open>Errors\<close>

text \<open>
  The exceptions that \<^verbatim>\<open>autofile/model.py\<close> and the library calls it makes can raise.
  \<open>AssertionError\<close> is a failed \<^verbatim>\<open>assert\<close>, \<open>ValueError\<close> the explicit \<^verbatim>\<open>raise ValueError\<close>
  of the removal guard and of \<^verbatim>\<open>existing\<close> (and of \<^verbatim>\<open>os.path.relpath('')\<close>),
  \<open>AttributeError\<close> a method call on \<^verbatim>\<open>None\<close>; the others are \<^verbatim>\<open>OSError\<close> and the
  subclasses of it that the filesystem calls raise.
\<close>

datatype error =
    AssertionError
  | ValueError
  | FileNotFoundError
  | FileExistsError
  | NotADirectoryError
  | IsADirectoryError
  | OSError
  | AttributeError

section \<open>Strings and \<^verbatim>\<open>posixpath\<close>\<close>

text \<open>Paths are Python strings; the separator is \<^verbatim>\<open>'/'\<close>.\<close>

definition sep :: char where
  "sep = CHR ''/''"

text \<open>\<^verbatim>\<open>s.split('/')\<close>: never empty; \<^verbatim>\<open>''.split('/') == ['']\<close>.\<close>

fun str_split :: "string \<Rightarrow> string list" where
  "str_split [] = [[]]"
| "str_split (c # cs) =
     (if c = sep then [] # str_split cs
      else (c # hd (str_split cs)) # tl (str_split cs))"

text \<open>\<^verbatim>\<open>'/'.join(xs)\<close>.\<close>

fun str_join :: "string list \<Rightarrow> string" where
  "str_join [] = []"
| "str_join [x] = x"
| "str_join (x # y # ys) = x @ sep # str_join (y # ys)"

text \<open>\<^verbatim>\<open>s.rstrip('/')\<close>.\<close>

definition rstrip_sep :: "string \<Rightarrow> string" where
  "rstrip_sep s = rev (dropWhile (\<lambda>c. c = sep) (rev s))"

text \<open>\<^verbatim>\<open>posixpath.isabs\<close>: \<^verbatim>\<open>s.startswith('/')\<close>.\<close>

definition isabs :: "string \<Rightarrow> bool" where
  "isabs s = (case s of [] \<Rightarrow> False | c # _ \<Rightarrow> c = sep)"

text \<open>
  \<^verbatim>\<open>posixpath.join(a, b)\<close>, one step of the loop of \<^verbatim>\<open>join(a, *p)\<close>:
  an absolute \<open>b\<close> replaces the path, otherwise \<open>b\<close> is appended, with a separator
  unless the path is empty or already ends in one.
\<close>

definition os_path_join :: "string \<Rightarrow> string \<Rightarrow> string" where
  "os_path_join a b =
     (if isabs b then b
      else if a = [] \<or> last a = sep then a @ b
      else a @ sep # b)"

text \<open>\<^verbatim>\<open>posixpath.join(a, *p)\<close>.\<close>

definition os_path_join_all :: "string \<Rightarrow> string list \<Rightarrow> string" where
  "os_path_join_all a p = foldl os_path_join a p"

text \<open>
  \<^verbatim>\<open>posixpath.split(p)\<close>: the tail is what follows the last separator, the head what
  precedes it, stripped of trailing separators unless it consists of separators only.
\<close>

definition os_path_split :: "string \<Rightarrow> string \<times> string" where
  "os_path_split p =
     (let tail = rev (takeWhile (\<lambda>c. c \<noteq> sep) (rev p));
          head = rev (dropWhile (\<lambda>c. c \<noteq> sep) (rev p))
      in (if head \<noteq> [] \<and> head \<noteq> replicate (length head) sep
          then rstrip_sep head else head, tail))"

text \<open>
  \<^verbatim>\<open>posixpath.normpath\<close>. \<open>norm_comps\<close> is the loop over the components;
  \<open>slashes\<close> is \<^verbatim>\<open>initial_slashes\<close> (0, 1 or 2).
\<close>

definition norm_step :: "nat \<Rightarrow> string list \<Rightarrow> string \<Rightarrow> string list" where
  "norm_step slashes new_comps c =
     (if c = [] \<or> c = ''.'' then new_comps
      else if c \<noteq> ''..'' \<or> (slashes = 0 \<and> new_comps = [])
              \<or> (new_comps \<noteq> [] \<and> last new_comps = ''..'')
        then new_comps @ [c]
      else if new_comps \<noteq> [] then butlast new_comps
      else new_comps)"

definition initial_slashes :: "string \<Rightarrow> nat" where
  "initial_slashes path =
     (if \<not> isabs path then 0
      else if take 2 path = [sep, sep] \<and> take 3 path \<noteq> [sep, sep, sep] then 2
      else 1)"

definition normpath :: "string \<Rightarrow> string" where
  "normpath path =
     (if path = [] then ''.''
      else
        let n = initial_slashes path;
            comps = foldl (norm_step n) [] (str_split path);
            r = replicate n sep @ str_join comps
        in if r = [] then ''.'' else r)"

text \<open>
  \<^verbatim>\<open>genericpath.commonprefix\<close> on two lists of components: their longest common prefix.
\<close>

fun commonprefix :: "'a list \<Rightarrow> 'a list \<Rightarrow> 'a list" where
  "commonprefix (x # xs) (y # ys) = (if x = y then x # commonprefix xs ys else [])"
| "commonprefix _ _ = []"

section \<open>The filesystem\<close>

text \<open>
  The filesystem the library calls act on: an association list from canonical absolute
  locations (the list of names from the root directory, \<open>[]\<close> being the root) to
  directories and regular files with their text. There are no symbolic links. The
  process's working directory is a location, or \<open>None\<close> once its directory has been
  removed.
\<close>

datatype entry = EDir | EFile string

type_synonym fs = "(string list \<times> entry) list"

record world =
  cwd :: "string list option"
  tree :: fs

text \<open>
  Path resolution as the kernel does it: every component is looked up in a directory
  that exists; the empty component and \<^verbatim>\<open>.\<close> stay, \<^verbatim>\<open>..\<close> goes to the parent (the root is
  its own parent). The location reached by the last component is returned without
  being looked up.
\<close>

fun walk :: "fs \<Rightarrow> string list \<Rightarrow> string list \<Rightarrow> error + string list" where
  "walk t cur [] = Inr cur"
| "walk t cur (c # cs) =
     (case map_of t cur of
        None \<Rightarrow> Inl FileNotFoundError
      | Some (EFile _) \<Rightarrow> Inl NotADirectoryError
      | Some EDir \<Rightarrow>
          walk t (if c = [] \<or> c = ''.'' then cur
                  else if c = ''..'' then butlast cur
                  else cur @ [c]) cs)"

definition walk_from :: "world \<Rightarrow> string \<Rightarrow> string list \<Rightarrow> error + string list" where
  "walk_from w p cs =
     (if isabs p then walk (tree w) [] cs
      else (case cwd w of
              None \<Rightarrow> Inl FileNotFoundError
            | Some d \<Rightarrow> walk (tree w) d cs))"

definition namei :: "world \<Rightarrow> string \<Rightarrow> error + string list" where
  "namei w p =
     (if p = [] then Inl FileNotFoundError else walk_from w p (str_split p))"

text \<open>\<^verbatim>\<open>os.stat\<close>, with the location the path resolves to.\<close>

definition stat :: "world \<Rightarrow> string \<Rightarrow> error + (string list \<times> entry)" where
  "stat w p =
     (case namei w p of
        Inl e \<Rightarrow> Inl e
      | Inr q \<Rightarrow>
          (case map_of (tree w) q of
             None \<Rightarrow> Inl FileNotFoundError
           | Some e \<Rightarrow> Inr (q, e)))"

text \<open>\<^verbatim>\<open>os.path.exists\<close>, \<^verbatim>\<open>os.path.isdir\<close>, \<^verbatim>\<open>os.path.isfile\<close>: a failing \<^verbatim>\<open>stat\<close> is \<^verbatim>\<open>False\<close>.\<close>

definition os_path_exists :: "world \<Rightarrow> string \<Rightarrow> bool" where
  "os_path_exists w p = (case stat w p of Inl _ \<Rightarrow> False | Inr _ \<Rightarrow> True)"

definition os_path_isdir :: "world \<Rightarrow> string \<Rightarrow> bool" where
  "os_path_isdir w p = (case stat w p of Inr (_, EDir) \<Rightarrow> True | _ \<Rightarrow> False)"

definition os_path_isfile :: "world \<Rightarrow> string \<Rightarrow> bool" where
  "os_path_isfile w p = (case stat w p of Inr (_, EFile _) \<Rightarrow> True | _ \<Rightarrow> False)"

text \<open>
  The directory and the name a path designates for the calls that create or delete an
  entry: trailing separators are dropped, all components but the last are resolved,
  and the directory reached must exist.
\<close>

definition parent_of :: "world \<Rightarrow> string \<Rightarrow> error + (string list \<times> string)" where
  "parent_of w p =
     (let cs = str_split (rstrip_sep p) in
      case walk_from w p (butlast cs) of
        Inl e \<Rightarrow> Inl e
      | Inr d \<Rightarrow>
          (case map_of (tree w) d of
             None \<Rightarrow> Inl FileNotFoundError
           | Some (EFile _) \<Rightarrow> Inl NotADirectoryError
           | Some EDir \<Rightarrow> Inr (d, last cs)))"

text \<open>\<^verbatim>\<open>os.mkdir\<close>.\<close>

definition os_mkdir :: "string \<Rightarrow> world \<Rightarrow> (error + unit) \<times> world" where
  "os_mkdir p w =
     (if p = [] then (Inl FileNotFoundError, w)
      else if rstrip_sep p = [] then (Inl FileExistsError, w)
      else
        case parent_of w p of
          Inl e \<Rightarrow> (Inl e, w)
        | Inr (d, n) \<Rightarrow>
            if n = ''.'' \<or> n = ''..'' \<or> map_of (tree w) (d @ [n]) \<noteq> None
            then (Inl FileExistsError, w)
            else (Inr (), w\<lparr>tree := AList.update (d @ [n]) EDir (tree w)\<rparr>))"

text \<open>
  \<^verbatim>\<open>os.makedirs(name)\<close> with \<^verbatim>\<open>exist_ok=False\<close>. \<open>makedirs_split\<close> is its first three
  lines: \<^verbatim>\<open>head, tail = split(name)\<close>, split again when the tail is empty.
\<close>

definition makedirs_split :: "string \<Rightarrow> string \<times> string" where
  "makedirs_split name =
     (if snd (os_path_split name) = [] then os_path_split (fst (os_path_split name))
      else os_path_split name)"

lemma length_rstrip_sep: "length (rstrip_sep s) \<le> length s"
  unfolding rstrip_sep_def
  by (metis length_dropWhile_le length_rev)

lemma length_os_path_split:
  "length (fst (os_path_split p)) + length (snd (os_path_split p)) \<le> length p"
proof -
  let ?P = "\<lambda>c. c \<noteq> sep"
  have "length (takeWhile ?P (rev p)) + length (dropWhile ?P (rev p)) = length p"
    by (metis length_append length_rev takeWhile_dropWhile_id)
  moreover have "length (rstrip_sep (rev (dropWhile ?P (rev p)))) \<le> length (dropWhile ?P (rev p))"
    using length_rstrip_sep [of "rev (dropWhile ?P (rev p))"] by simp
  ultimately show ?thesis
    by (simp add: os_path_split_def Let_def)
qed

lemma makedirs_split_shorter:
  assumes "snd (makedirs_split name) \<noteq> []"
  shows "length (fst (makedirs_split name)) < length name"
proof (cases "snd (os_path_split name) = []")
  case True
  let ?h = "fst (os_path_split name)"
  have ms: "makedirs_split name = os_path_split ?h"
    using True by (simp add: makedirs_split_def)
  obtain c cs where "snd (os_path_split ?h) = c # cs"
    using assms ms by (cases "snd (os_path_split ?h)") auto
  then have "length (snd (os_path_split ?h)) = Suc (length cs)"
    by simp
  moreover have "length (fst (os_path_split ?h)) + length (snd (os_path_split ?h)) \<le> length ?h"
    by (rule length_os_path_split)
  moreover have "length ?h \<le> length name"
    using length_os_path_split [of name] by simp
  ultimately have "length (fst (os_path_split ?h)) < length name"
    by linarith
  then show ?thesis
    by (simp only: ms)
next
  case False
  then have ms: "makedirs_split name = os_path_split name"
    by (simp add: makedirs_split_def)
  obtain c cs where "snd (os_path_split name) = c # cs"
    using False by (cases "snd (os_path_split name)") auto
  then have "length (snd (os_path_split name)) = Suc (length cs)"
    by simp
  then have "length (fst (os_path_split name)) < length name"
    using length_os_path_split [of name] by linarith
  then show ?thesis
    by (simp only: ms)
qed

function makedirs :: "string \<Rightarrow> world \<Rightarrow> (error + unit) \<times> world" where
  "makedirs name w =
     (if fst (makedirs_split name) \<noteq> [] \<and> snd (makedirs_split name) \<noteq> []
         \<and> \<not> os_path_exists w (fst (makedirs_split name))
      then
        (case makedirs (fst (makedirs_split name)) w of
           (Inl e, w') \<Rightarrow>
             if e = FileExistsError
             then (if snd (makedirs_split name) = ''.'' then (Inr (), w') else os_mkdir name w')
             else (Inl e, w')
         | (Inr _, w') \<Rightarrow>
             if snd (makedirs_split name) = ''.'' then (Inr (), w') else os_mkdir name w')
      else os_mkdir name w)"
  by pat_completeness auto
termination
  by (relation "measure (\<lambda>(name, w). length name)") (auto intro: makedirs_split_shorter)

declare makedirs.simps [simp del]

text \<open>
  Modelled from the spec: \<^verbatim>\<open>autofile.io_.write_file\<close> and \<^verbatim>\<open>autofile.io_.read_file\<close> are
  not among the sources. The spec has \<^verbatim>\<open>write\<close> write the text to the path, overwriting
  any existing content, and \<^verbatim>\<open>read\<close> read the text back; they are modelled as
  \<^verbatim>\<open>open(path, 'w').write(string)\<close> and \<^verbatim>\<open>open(path).read()\<close>.
\<close>

definition write_file :: "string \<Rightarrow> string \<Rightarrow> world \<Rightarrow> (error + unit) \<times> world" where
  "write_file p s w =
     (if p = [] then (Inl FileNotFoundError, w)
      else
        case parent_of w p of
          Inl e \<Rightarrow> (Inl e, w)
        | Inr (d, n) \<Rightarrow>
            if last p = sep
            then (case map_of (tree w) (d @ [n]) of
                    Some (EFile _) \<Rightarrow> (Inl NotADirectoryError, w)
                  | _ \<Rightarrow> (Inl IsADirectoryError, w))
            else if n = [] \<or> n = ''.'' \<or> n = ''..'' then (Inl IsADirectoryError, w)
            else
              (case map_of (tree w) (d @ [n]) of
                 Some EDir \<Rightarrow> (Inl IsADirectoryError, w)
               | _ \<Rightarrow> (Inr (), w\<lparr>tree := AList.update (d @ [n]) (EFile s) (tree w)\<rparr>)))"

definition read_file :: "string \<Rightarrow> world \<Rightarrow> error + string" where
  "read_file p w =
     (case stat w p of
        Inl e \<Rightarrow> Inl e
      | Inr (_, EDir) \<Rightarrow> Inl IsADirectoryError
      | Inr (_, EFile s) \<Rightarrow> Inr s)"

text \<open>\<^verbatim>\<open>os.remove\<close> (\<^verbatim>\<open>unlink\<close>).\<close>

definition os_remove :: "string \<Rightarrow> world \<Rightarrow> (error + unit) \<times> world" where
  "os_remove p w =
     (if p = [] then (Inl FileNotFoundError, w)
      else
        case parent_of w p of
          Inl e \<Rightarrow> (Inl e, w)
        | Inr (d, n) \<Rightarrow>
            if n = [] \<or> n = ''.'' \<or> n = ''..'' then (Inl IsADirectoryError, w)
            else
              (case map_of (tree w) (d @ [n]) of
                 None \<Rightarrow> (Inl FileNotFoundError, w)
               | Some EDir \<Rightarrow> (Inl IsADirectoryError, w)
               | Some (EFile _) \<Rightarrow>
                   if last p = sep then (Inl NotADirectoryError, w)
                   else (Inr (), w\<lparr>tree := AList.delete (d @ [n]) (tree w)\<rparr>)))"

text \<open>
  \<^verbatim>\<open>shutil.rmtree\<close>: everything beneath the directory is deleted, then \<^verbatim>\<open>os.rmdir(path)\<close>
  deletes the directory itself, which the kernel refuses for the root and for a path
  whose last component is \<^verbatim>\<open>.\<close> or \<^verbatim>\<open>..\<close>. A working directory that is deleted is gone.
\<close>

definition below :: "string list \<Rightarrow> string list \<Rightarrow> bool" where
  "below q r = (length q < length r \<and> take (length q) r = q)"

definition rmtree :: "string \<Rightarrow> world \<Rightarrow> (error + unit) \<times> world" where
  "rmtree p w =
     (case stat w p of
        Inl e \<Rightarrow> (Inl e, w)
      | Inr (q, EFile _) \<Rightarrow> (Inl NotADirectoryError, w)
      | Inr (q, EDir) \<Rightarrow>
          (let w1 = w\<lparr>cwd := (case cwd w of
                                 None \<Rightarrow> None
                               | Some d \<Rightarrow> if below q d then None else Some d),
                      tree := filter (\<lambda>(r, e). \<not> below q r) (tree w)\<rparr>
           in case parent_of w1 p of
                Inl e \<Rightarrow> (Inl e, w1)
              | Inr (d, n) \<Rightarrow>
                  if n = [] \<or> n = ''.'' \<or> n = ''..'' then (Inl OSError, w1)
                  else (Inr (), w1\<lparr>cwd := (if cwd w1 = Some q then None else cwd w1),
                                    tree := AList.delete q (tree w1)\<rparr>)))"

subsection \<open>\<^verbatim>\<open>glob.glob\<close>\<close>

definition has_magic :: "string \<Rightarrow> bool" where
  "has_magic s = (\<exists>c \<in> set s. c = CHR ''*'' \<or> c = CHR ''?'' \<or> c = CHR ''['')"

definition ishidden :: "string \<Rightarrow> bool" where
  "ishidden s = (case s of [] \<Rightarrow> False | c # _ \<Rightarrow> c = CHR ''.'')"

text \<open>
  \<^verbatim>\<open>glob._listdir\<close>: the names in a directory (\<^verbatim>\<open>os.curdir\<close> for the empty name), only
  the directories among them when \<open>dironly\<close>, nothing when the directory cannot be read.
\<close>

definition listdir :: "world \<Rightarrow> string \<Rightarrow> bool \<Rightarrow> string list" where
  "listdir w dirname dironly =
     (case stat w (if dirname = [] then ''.'' else dirname) of
        Inr (q, EDir) \<Rightarrow>
          remdups (map (\<lambda>(r, e). last r)
            (filter (\<lambda>(r, e). r \<noteq> [] \<and> butlast r = q \<and> map_of (tree w) r = Some e
                               \<and> (dironly \<longrightarrow> e = EDir)) (tree w)))
      | _ \<Rightarrow> [])"

text \<open>
  \<^verbatim>\<open>fnmatch.filter(names, pattern)\<close>. The pattern \<^verbatim>\<open>*\<close> translates to a regular expression
  that matches every name; what any other pattern matches is the parameter \<open>fnm\<close>.
\<close>

definition fnmatch_filter :: "(string \<Rightarrow> string \<Rightarrow> bool) \<Rightarrow> string list \<Rightarrow> string \<Rightarrow> string list" where
  "fnmatch_filter fnm names pat = filter (\<lambda>n. pat = ''*'' \<or> fnm pat n) names"

definition glob1 :: "(string \<Rightarrow> string \<Rightarrow> bool) \<Rightarrow> world \<Rightarrow> string \<Rightarrow> string \<Rightarrow> bool \<Rightarrow> string list" where
  "glob1 fnm w dirname pat dironly =
     fnmatch_filter fnm
       (if \<not> ishidden pat then filter (\<lambda>x. \<not> ishidden x) (listdir w dirname dironly)
        else listdir w dirname dironly) pat"

text \<open>\<^verbatim>\<open>glob._join\<close>.\<close>

definition glob_join :: "string \<Rightarrow> string \<Rightarrow> string" where
  "glob_join dirname basename =
     (if dirname = [] \<or> basename = [] then (if dirname \<noteq> [] then dirname else basename)
      else os_path_join dirname basename)"

definition glob0 :: "world \<Rightarrow> string \<Rightarrow> string \<Rightarrow> string list" where
  "glob0 w dirname basename =
     (if basename \<noteq> []
      then (if os_path_exists w (glob_join dirname basename) then [basename] else [])
      else (if os_path_isdir w dirname then [basename] else []))"

lemma rev_dropWhile_rev_take: "rev (dropWhile P (rev s)) = take (length (dropWhile P (rev s))) s"
proof -
  have "s = rev (dropWhile P (rev s)) @ rev (takeWhile P (rev s))"
    by (metis rev_append rev_rev_ident takeWhile_dropWhile_id)
  then have "take (length (rev (dropWhile P (rev s)))) s = rev (dropWhile P (rev s))"
    by (metis append_eq_conv_conj)
  then show ?thesis
    by simp
qed

lemma os_path_split_head_take: "\<exists>n. fst (os_path_split p) = take n p"
proof -
  let ?h = "rev (dropWhile (\<lambda>c. c \<noteq> sep) (rev p))"
  obtain n where n: "?h = take n p"
    using rev_dropWhile_rev_take by blast
  obtain m where "rstrip_sep ?h = take m ?h"
    unfolding rstrip_sep_def using rev_dropWhile_rev_take by blast
  then have "rstrip_sep ?h = take (min m n) p"
    using n by (simp add: min.commute)
  then have m: "\<exists>k. rstrip_sep ?h = take k p"
    by blast
  have h: "\<exists>k. ?h = take k p"
    using n by blast
  have "fst (os_path_split p) = ?h \<or> fst (os_path_split p) = rstrip_sep ?h"
    by (simp add: os_path_split_def Let_def)
  then show ?thesis
    using m h by metis
qed

lemma os_path_split_head_shorter:
  assumes "fst (os_path_split p) \<noteq> p"
  shows "length (fst (os_path_split p)) < length p"
proof -
  obtain n where n: "fst (os_path_split p) = take n p"
    using os_path_split_head_take by blast
  with assms have "n < length p"
    by (metis linorder_not_less take_all)
  with n show ?thesis
    by simp
qed

text \<open>
  \<^verbatim>\<open>glob._iglob\<close> without \<^verbatim>\<open>recursive\<close>; \<^verbatim>\<open>root_dir\<close> is the empty string. The branch for a
  pattern without magic asserts \<^verbatim>\<open>not dironly\<close>; it is never entered with \<open>dironly\<close>, which
  is set only in the call on a directory part that has magic.
\<close>

function iglob :: "(string \<Rightarrow> string \<Rightarrow> bool) \<Rightarrow> world \<Rightarrow> bool \<Rightarrow> string \<Rightarrow> string list" where
  "iglob fnm w dironly pathname =
     (if \<not> has_magic pathname then
        (if snd (os_path_split pathname) \<noteq> []
         then (if os_path_exists w pathname then [pathname] else [])
         else (if os_path_isdir w (fst (os_path_split pathname)) then [pathname] else []))
      else if fst (os_path_split pathname) = [] then
        glob1 fnm w [] (snd (os_path_split pathname)) dironly
      else
        concat (map
          (\<lambda>d. map (os_path_join d)
                 (if has_magic (snd (os_path_split pathname))
                  then glob1 fnm w d (snd (os_path_split pathname)) dironly
                  else glob0 w d (snd (os_path_split pathname))))
          (if fst (os_path_split pathname) \<noteq> pathname \<and> has_magic (fst (os_path_split pathname))
           then iglob fnm w True (fst (os_path_split pathname))
           else [fst (os_path_split pathname)])))"
  by pat_completeness auto
termination
  by (relation "measure (\<lambda>(fnm, w, dironly, pathname). length pathname)")
     (auto intro: os_path_split_head_shorter)

declare iglob.simps [simp del]

definition glob :: "(string \<Rightarrow> string \<Rightarrow> bool) \<Rightarrow> world \<Rightarrow> string \<Rightarrow> string list" where
  "glob fnm w pathname = iglob fnm w False pathname"

subsection \<open>Paths that depend on the working directory\<close>

definition getcwd :: "world \<Rightarrow> error + string" where
  "getcwd w = (case cwd w of None \<Rightarrow> Inl FileNotFoundError | Some d \<Rightarrow> Inr (sep # str_join d))"

definition abspath :: "world \<Rightarrow> string \<Rightarrow> error + string" where
  "abspath w path =
     (if \<not> isabs path
      then (case getcwd w of Inl e \<Rightarrow> Inl e | Inr c \<Rightarrow> Inr (normpath (os_path_join c path)))
      else Inr (normpath path))"

text \<open>\<^verbatim>\<open>posixpath.relpath(path)\<close>, with \<^verbatim>\<open>start\<close> the current directory.\<close>

definition relpath :: "world \<Rightarrow> string \<Rightarrow> error + string" where
  "relpath w path =
     (if path = [] then Inl ValueError
      else
        case abspath w ''.'' of
          Inl e \<Rightarrow> Inl e
        | Inr s \<Rightarrow>
            (case abspath w path of
               Inl e \<Rightarrow> Inl e
             | Inr a \<Rightarrow>
                 (let start_list = filter (\<lambda>x. x \<noteq> []) (str_split s);
                      path_list = filter (\<lambda>x. x \<noteq> []) (str_split a);
                      i = length (commonprefix start_list path_list);
                      rel_list = replicate (length start_list - i) ''..'' @ drop i path_list
                  in if rel_list = [] then Inr ''.''
                     else Inr (os_path_join_all (hd rel_list) (tl rel_list)))))"

section \<open>\<^verbatim>\<open>autofile/model.py\<close>\<close>

subsection \<open>Module helpers\<close>

text \<open>\<^verbatim>\<open>_path_is_relative\<close>: \<^verbatim>\<open>os.path.relpath(pth) == pth\<close>.\<close>

definition path_is_relative :: "world \<Rightarrow> string \<Rightarrow> error + bool" where
  "path_is_relative w pth = (case relpath w pth of Inl e \<Rightarrow> Inl e | Inr r \<Rightarrow> Inr (r = pth))"

text \<open>
  \<^verbatim>\<open>_os_path_split_all\<close>: the \<^verbatim>\<open>while 1\<close> loop, with \<open>allparts\<close> as accumulator
  (\<^verbatim>\<open>allparts.insert(0, x)\<close> is \<open>x # allparts\<close>).
\<close>

function split_all_loop :: "string \<Rightarrow> string list \<Rightarrow> string list" where
  "split_all_loop pth allparts =
     (if fst (os_path_split pth) = pth then fst (os_path_split pth) # allparts
      else if snd (os_path_split pth) = pth then snd (os_path_split pth) # allparts
      else split_all_loop (fst (os_path_split pth)) (snd (os_path_split pth) # allparts))"
  by pat_completeness auto
termination
  by (relation "measure (\<lambda>(pth, allparts). length pth)")
     (auto intro: os_path_split_head_shorter)

declare split_all_loop.simps [simp del]

definition os_path_split_all :: "string \<Rightarrow> string list" where
  "os_path_split_all pth = split_all_loop pth []"

text \<open>\<^verbatim>\<open>_path_has_depth\<close>.\<close>

definition path_has_depth :: "string \<Rightarrow> int \<Rightarrow> bool" where
  "path_has_depth pth d = (int (length (os_path_split_all pth)) = d)"

subsection \<open>\<^verbatim>\<open>DataFile\<close>\<close>

text \<open>
  The file manager for values of type \<open>'v\<close>. The fields \<open>writer\<close> and \<open>reader\<close> are the
  attributes \<^verbatim>\<open>writer_\<close> and \<^verbatim>\<open>reader_\<close>.
\<close>

record 'v DataFile =
  name :: string
  writer :: "'v \<Rightarrow> string"
  reader :: "string \<Rightarrow> 'v"
  removable :: bool

text \<open>\<^verbatim>\<open>DataFile.__init__(name, writer_, reader_)\<close>.\<close>

definition DataFile_init :: "string \<Rightarrow> ('v \<Rightarrow> string) \<Rightarrow> (string \<Rightarrow> 'v) \<Rightarrow> 'v DataFile" where
  "DataFile_init nm wr rd = \<lparr>name = nm, writer = wr, reader = rd, removable = False\<rparr>"

definition DataFile_path :: "'v DataFile \<Rightarrow> string \<Rightarrow> string" where
  "DataFile_path df dir_pth = os_path_join dir_pth (name df)"

definition DataFile_exists :: "'v DataFile \<Rightarrow> string \<Rightarrow> world \<Rightarrow> bool" where
  "DataFile_exists df dir_pth w = os_path_isfile w (DataFile_path df dir_pth)"

definition DataFile_write :: "'v DataFile \<Rightarrow> 'v \<Rightarrow> string \<Rightarrow> world \<Rightarrow> (error + unit) \<times> world" where
  "DataFile_write df val dir_pth w =
     (if \<not> os_path_exists w dir_pth then (Inl AssertionError, w)
      else write_file (DataFile_path df dir_pth) (writer df val) w)"

definition DataFile_read :: "'v DataFile \<Rightarrow> string \<Rightarrow> world \<Rightarrow> error + 'v" where
  "DataFile_read df dir_pth w =
     (if \<not> DataFile_exists df dir_pth w then Inl AssertionError
      else
        case read_file (DataFile_path df dir_pth) w of
          Inl e \<Rightarrow> Inl e
        | Inr val_str \<Rightarrow> Inr (reader df val_str))"

definition DataFile_remove :: "'v DataFile \<Rightarrow> string \<Rightarrow> world \<Rightarrow> (error + unit) \<times> world" where
  "DataFile_remove df dir_pth w =
     (if DataFile.removable df then os_remove (DataFile_path df dir_pth) w
      else (Inl ValueError, w))"

subsection \<open>\<^verbatim>\<open>DataSeries\<close>\<close>

text \<open>
  The directory manager. Locators are values of type \<open>'l\<close>, a locator tuple is a list.
  \<open>mapf\<close> is the attribute \<^verbatim>\<open>map_\<close>. The attribute \<^verbatim>\<open>file\<close>, the namespace that
  \<^verbatim>\<open>add_data_files\<close> fills, is kept apart from the series (see \<open>add_data_files\<close>).
\<close>

datatype 'l DataSeries = DataSeries
  (prefix: string)
  (mapf: "'l list \<Rightarrow> string")
  (nlocs: int)
  (depth: int)
  (loc_dfile: "'l list DataFile option")
  (root: "'l DataSeries option")
  (removable: bool)

lemma size_root [termination_simp]: "root ds = Some r \<Longrightarrow> size r < size ds"
  by (cases ds) simp

text \<open>\<^verbatim>\<open>DataSeries.__init__\<close>.\<close>

definition DataSeries_init ::
  "string \<Rightarrow> ('l list \<Rightarrow> string) \<Rightarrow> int \<Rightarrow> int \<Rightarrow> 'l list DataFile option
    \<Rightarrow> 'l DataSeries option \<Rightarrow> bool \<Rightarrow> world \<Rightarrow> error + 'l DataSeries" where
  "DataSeries_init prefix0 map0 nlocs0 depth0 loc_dfile0 root_ds removable0 w =
     (if \<not> os_path_isdir w prefix0 then Inl AssertionError
      else
        case abspath w prefix0 of
          Inl e \<Rightarrow> Inl e
        | Inr a \<Rightarrow> Inr (DataSeries a map0 nlocs0 depth0 loc_dfile0 root_ds removable0))"

text \<open>\<^verbatim>\<open>_self_locators\<close> and \<^verbatim>\<open>_root_locators\<close>.\<close>

definition self_locators :: "'l DataSeries \<Rightarrow> 'l list \<Rightarrow> error + 'l list" where
  "self_locators ds locs =
     (if \<not> int (length locs) \<ge> nlocs ds then Inl AssertionError
      else Inr (drop (nat (int (length locs) - nlocs ds)) locs))"

definition root_locators :: "'l DataSeries \<Rightarrow> 'l list \<Rightarrow> error + 'l list" where
  "root_locators ds locs =
     (if \<not> int (length locs) \<ge> nlocs ds then Inl AssertionError
      else Inr (take (nat (int (length locs) - nlocs ds)) locs))"

function root_locator_count :: "'l DataSeries \<Rightarrow> int" where
  "root_locator_count ds =
     (case root ds of
        None \<Rightarrow> 0
      | Some r \<Rightarrow> nlocs r + root_locator_count r)"
  by pat_completeness auto
termination
  by (relation "measure size") (auto simp: size_root)

declare root_locator_count.simps [simp del]

function DataSeries_path :: "'l DataSeries \<Rightarrow> 'l list \<Rightarrow> world \<Rightarrow> error + string" where
  "DataSeries_path ds locs w =
     (case (case root ds of
              None \<Rightarrow> Inr (prefix ds, locs)
            | Some r \<Rightarrow>
                (case root_locators ds locs of
                   Inl e \<Rightarrow> Inl e
                 | Inr root_locs \<Rightarrow>
                     (case self_locators ds locs of
                        Inl e \<Rightarrow> Inl e
                      | Inr locs' \<Rightarrow>
                          (case DataSeries_path r root_locs w of
                             Inl e \<Rightarrow> Inl e
                           | Inr p \<Rightarrow> Inr (p, locs'))))) of
        Inl e \<Rightarrow> Inl e
      | Inr (prefix', locs') \<Rightarrow>
          if int (length locs') \<noteq> nlocs ds then Inl AssertionError
          else
            (case path_is_relative w (mapf ds locs') of
               Inl e \<Rightarrow> Inl e
             | Inr rel \<Rightarrow>
                 if \<not> rel then Inl AssertionError
                 else if \<not> path_has_depth (mapf ds locs') (depth ds) then Inl AssertionError
                 else Inr (os_path_join prefix' (mapf ds locs'))))"
  by pat_completeness auto
termination
  by (relation "measure (\<lambda>(ds, locs, w). size ds)") (auto simp: size_root)

declare DataSeries_path.simps [simp del]

definition DataSeries_exists :: "'l DataSeries \<Rightarrow> 'l list \<Rightarrow> world \<Rightarrow> error + bool" where
  "DataSeries_exists ds locs w =
     (case DataSeries_path ds locs w of
        Inl e \<Rightarrow> Inl e
      | Inr pth \<Rightarrow> Inr (os_path_isdir w pth))"

definition DataSeries_remove :: "'l DataSeries \<Rightarrow> 'l list \<Rightarrow> world \<Rightarrow> (error + unit) \<times> world" where
  "DataSeries_remove ds locs w =
     (if DataSeries.removable ds then
        (case DataSeries_path ds locs w of
           Inl e \<Rightarrow> (Inl e, w)
         | Inr pth \<Rightarrow>
             (case DataSeries_exists ds locs w of
                Inl e \<Rightarrow> (Inl e, w)
              | Inr b \<Rightarrow> if b then rmtree pth w else (Inr (), w)))
      else (Inl ValueError, w))"

function DataSeries_create :: "'l DataSeries \<Rightarrow> 'l list \<Rightarrow> world \<Rightarrow> (error + unit) \<times> world" where
  "DataSeries_create ds locs w =
     (case (case root ds of
              None \<Rightarrow> (Inr (), w)
            | Some r \<Rightarrow>
                (case root_locators ds locs of
                   Inl e \<Rightarrow> (Inl e, w)
                 | Inr root_locs \<Rightarrow> DataSeries_create r root_locs w)) of
        (Inl e, w1) \<Rightarrow> (Inl e, w1)
      | (Inr _, w1) \<Rightarrow>
          (case DataSeries_exists ds locs w1 of
             Inl e \<Rightarrow> (Inl e, w1)
           | Inr b \<Rightarrow>
               if b then (Inr (), w1)
               else
                 (case DataSeries_path ds locs w1 of
                    Inl e \<Rightarrow> (Inl e, w1)
                  | Inr pth \<Rightarrow>
                      (case makedirs pth w1 of
                         (Inl e, w2) \<Rightarrow> (Inl e, w2)
                       | (Inr _, w2) \<Rightarrow>
                           (case loc_dfile ds of
                              None \<Rightarrow> (Inr (), w2)
                            | Some df \<Rightarrow>
                                (case self_locators ds locs of
                                   Inl e \<Rightarrow> (Inl e, w2)
                                 | Inr locs' \<Rightarrow> DataFile_write df locs' pth w2))))))"
  by pat_completeness auto
termination
  by (relation "measure (\<lambda>(ds, locs, w). size ds)") (auto simp: size_root)

declare DataSeries_create.simps [simp del]

text \<open>\<^verbatim>\<open>_existing_paths\<close>; \<open>fnm\<close> is the matcher of \<open>fnmatch_filter\<close>.\<close>

definition existing_paths ::
  "(string \<Rightarrow> string \<Rightarrow> bool) \<Rightarrow> 'l DataSeries \<Rightarrow> 'l list \<Rightarrow> world \<Rightarrow> error + string list" where
  "existing_paths fnm ds root_locs w =
     (case (case root ds of
              None \<Rightarrow> Inr (prefix ds)
            | Some r \<Rightarrow> DataSeries_path r root_locs w) of
        Inl e \<Rightarrow> Inl e
      | Inr prefix' \<Rightarrow>
          (let pth_pattern = os_path_join_all prefix' (replicate (nat (depth ds)) ''*'');
               pths = filter (os_path_isdir w) (glob fnm w pth_pattern)
           in Inr (sort (map (os_path_join prefix') pths))))"

text \<open>
  The results of a generator of calls that can raise, in order: the first error ends it.
\<close>

fun collect :: "(error + 'a) list \<Rightarrow> error + 'a list" where
  "collect [] = Inr []"
| "collect (Inl e # _) = Inl e"
| "collect (Inr x # rs) = (case collect rs of Inl e \<Rightarrow> Inl e | Inr xs \<Rightarrow> Inr (x # xs))"

text \<open>
  The same for calls that may not return (\<open>None\<close>), whose results are chained.
\<close>

fun chain :: "(error + 'a list) option list \<Rightarrow> (error + 'a list) option" where
  "chain [] = Some (Inr [])"
| "chain (None # _) = None"
| "chain (Some (Inl e) # _) = Some (Inl e)"
| "chain (Some (Inr xs) # rs) =
     (case chain rs of
        None \<Rightarrow> None
      | Some (Inl e) \<Rightarrow> Some (Inl e)
      | Some (Inr ys) \<Rightarrow> Some (Inr (xs @ ys)))"

text \<open>
  \<^verbatim>\<open>DataSeries.existing\<close>. The method calls itself on every locator tuple that the
  root's \<^verbatim>\<open>existing\<close> returns, whose lengths come from the locator files, so the
  recursion need not end: the first argument is the number of nested calls allowed,
  and \<open>None\<close> says that they did not suffice.
\<close>

fun DataSeries_existing ::
  "nat \<Rightarrow> (string \<Rightarrow> string \<Rightarrow> bool) \<Rightarrow> 'l DataSeries \<Rightarrow> 'l list \<Rightarrow> bool \<Rightarrow> world
    \<Rightarrow> (error + 'l list list) option" where
  "DataSeries_existing 0 fnm ds root_locs relative w = None"
| "DataSeries_existing (Suc k) fnm ds root_locs relative w =
     (if nlocs ds = 0 then
        (case DataSeries_exists ds [] w of
           Inl e \<Rightarrow> Some (Inl e)
         | Inr b \<Rightarrow> Some (Inr (if b then [[]] else [])))
      else if \<not> nlocs ds > 0 then Some (Inl AssertionError)
      else
        case loc_dfile ds of
          None \<Rightarrow> Some (Inl ValueError)
        | Some df \<Rightarrow>
            if int (length root_locs) < root_locator_count ds then
              (case root ds of
                 None \<Rightarrow> Some (Inl AttributeError)
               | Some r \<Rightarrow>
                   (case DataSeries_existing k fnm r root_locs False w of
                      None \<Rightarrow> None
                    | Some (Inl e) \<Rightarrow> Some (Inl e)
                    | Some (Inr rls) \<Rightarrow>
                        chain (map (\<lambda>root_locs'. DataSeries_existing k fnm ds root_locs' False w) rls)))
            else if root_locator_count ds \<noteq> int (length root_locs) then Some (Inl AssertionError)
            else
              (case existing_paths fnm ds root_locs w of
                 Inl e \<Rightarrow> Some (Inl e)
               | Inr pths \<Rightarrow>
                   (case collect (map (\<lambda>pth. DataFile_read df pth w)
                                   (filter (\<lambda>pth. DataFile_exists df pth w) pths)) of
                      Inl e \<Rightarrow> Some (Inl e)
                    | Inr locs_lst \<Rightarrow>
                        Some (Inr (if \<not> relative then map ((@) root_locs) locs_lst
                                   else locs_lst)))))"

subsection \<open>\<^verbatim>\<open>DataSeriesFile\<close>\<close>

text \<open>The field \<open>dfile\<close> is the attribute \<^verbatim>\<open>file\<close>.\<close>

record ('l, 'v) DataSeriesFile =
  dir :: "'l DataSeries"
  dfile :: "'v DataFile"
  removable :: bool

text \<open>\<^verbatim>\<open>DataSeriesFile.__init__(ds, dfile)\<close>.\<close>

definition DataSeriesFile_init :: "'l DataSeries \<Rightarrow> 'v DataFile \<Rightarrow> ('l, 'v) DataSeriesFile" where
  "DataSeriesFile_init ds df = \<lparr>dir = ds, dfile = df, removable = False\<rparr>"

definition DataSeriesFile_path :: "('l, 'v) DataSeriesFile \<Rightarrow> 'l list \<Rightarrow> world \<Rightarrow> error + string" where
  "DataSeriesFile_path dsf locs w =
     (case DataSeries_path (dir dsf) locs w of
        Inl e \<Rightarrow> Inl e
      | Inr d \<Rightarrow> Inr (DataFile_path (dfile dsf) d))"

definition DataSeriesFile_exists :: "('l, 'v) DataSeriesFile \<Rightarrow> 'l list \<Rightarrow> world \<Rightarrow> error + bool" where
  "DataSeriesFile_exists dsf locs w =
     (case DataSeries_path (dir dsf) locs w of
        Inl e \<Rightarrow> Inl e
      | Inr d \<Rightarrow> Inr (DataFile_exists (dfile dsf) d w))"

definition DataSeriesFile_write ::
  "('l, 'v) DataSeriesFile \<Rightarrow> 'v \<Rightarrow> 'l list \<Rightarrow> world \<Rightarrow> (error + unit) \<times> world" where
  "DataSeriesFile_write dsf val locs w =
     (case DataSeries_path (dir dsf) locs w of
        Inl e \<Rightarrow> (Inl e, w)
      | Inr d \<Rightarrow> DataFile_write (dfile dsf) val d w)"

definition DataSeriesFile_read :: "('l, 'v) DataSeriesFile \<Rightarrow> 'l list \<Rightarrow> world \<Rightarrow> error + 'v" where
  "DataSeriesFile_read dsf locs w =
     (case DataSeries_path (dir dsf) locs w of
        Inl e \<Rightarrow> Inl e
      | Inr d \<Rightarrow> DataFile_read (dfile dsf) d w)"

definition DataSeriesFile_remove ::
  "('l, 'v) DataSeriesFile \<Rightarrow> 'l list \<Rightarrow> world \<Rightarrow> (error + unit) \<times> world" where
  "DataSeriesFile_remove dsf locs w =
     (if DataSeriesFile.removable dsf then
        (case DataSeriesFile_path dsf locs w of
           Inl e \<Rightarrow> (Inl e, w)
         | Inr pth \<Rightarrow> os_remove pth w)
      else (Inl ValueError, w))"

text \<open>
  \<^verbatim>\<open>DataSeries.add_data_files\<close>: the namespace \<^verbatim>\<open>self.file\<close> as an association list from
  attribute names to the files bound to the series; \<^verbatim>\<open>setattr\<close> replaces a bound name.
\<close>

definition add_data_files ::
  "'l DataSeries \<Rightarrow> (string \<times> ('l, 'v) DataSeriesFile) list \<Rightarrow> (string \<times> 'v DataFile) list
    \<Rightarrow> (string \<times> ('l, 'v) DataSeriesFile) list" where
  "add_data_files ds ns dfile_dct =
     fold (\<lambda>(nm, df). AList.update nm (DataSeriesFile_init ds df)) dfile_dct ns"


section \<open>Notions used in the proofs\<close>

text \<open>Every directory of the first tree is a directory of the second.\<close>

definition dirs_kept :: "fs \<Rightarrow> fs \<Rightarrow> bool" where
  "dirs_kept t t' = (\<forall>q. map_of t q = Some EDir \<longrightarrow> map_of t' q = Some EDir)"


text \<open>
  Python's \<^verbatim>\<open>str\<close> on integers, and the map \<^verbatim>\<open>'/'.join(str(x) for x in locs)\<close>, which is
  \<^verbatim>\<open>"{a}/{b}"\<close> on pairs; they serve in examples.
\<close>

function str_nat :: "nat \<Rightarrow> string" where
  "str_nat n =
     (if n < 10 then [''0123456789'' ! n]
      else str_nat (n div 10) @ [''0123456789'' ! (n mod 10)])"
  by pat_completeness auto
termination
  by (relation "measure id") auto

declare str_nat.simps [simp del]

definition str_int :: "int \<Rightarrow> string" where
  "str_int i = (if i < 0 then CHR ''-'' # str_nat (nat (- i)) else str_nat (nat i))"

definition format_locs :: "int list \<Rightarrow> string" where
  "format_locs locs = str_join (map str_int locs)"

text \<open>
  The last four lines of \<^verbatim>\<open>DataSeries.path\<close>: the segment that \<^verbatim>\<open>map_\<close> gives is checked to
  be relative and of the series' depth, and joined to the prefix.
\<close>

definition join_segment :: "'l DataSeries \<Rightarrow> string \<Rightarrow> 'l list \<Rightarrow> world \<Rightarrow> error + string" where
  "join_segment ds prefix' locs' w =
     (case path_is_relative w (mapf ds locs') of
        Inl e \<Rightarrow> Inl e
      | Inr rel \<Rightarrow>
          if \<not> rel then Inl AssertionError
          else if \<not> path_has_depth (mapf ds locs') (depth ds) then Inl AssertionError
          else Inr (os_path_join prefix' (mapf ds locs')))"

text \<open>
  \<^verbatim>\<open>path\<close> as the specification words it: the root's path on
  \<^verbatim>\<open>locators[: len(locators) - nlocs]\<close>, or the series' own prefix when there is no root,
  joined with the segment of \<^verbatim>\<open>locators[len(locators) - nlocs :]\<close>.
\<close>

definition path_by_parts :: "'l DataSeries \<Rightarrow> 'l list \<Rightarrow> world \<Rightarrow> error + string" where
  "path_by_parts ds locs w =
     (case (case root ds of
              None \<Rightarrow> Inr (prefix ds)
            | Some r \<Rightarrow> DataSeries_path r (take (nat (int (length locs) - nlocs ds)) locs) w) of
        Inl e \<Rightarrow> Inl e
      | Inr prefix' \<Rightarrow> join_segment ds prefix' (drop (nat (int (length locs) - nlocs ds)) locs) w)"


text \<open>
  The series that \<^verbatim>\<open>DataSeries.__init__\<close> returns, in some state of the filesystem, with
  no root or with a root that was constructed in the same way.
\<close>

inductive constructed :: "'l DataSeries \<Rightarrow> bool" where
  rootless: "DataSeries_init prefix0 map0 nlocs0 depth0 loc_dfile0 None removable0 w = Inr ds
    \<Longrightarrow> constructed ds"
| rooted: "constructed r
    \<Longrightarrow> DataSeries_init prefix0 map0 nlocs0 depth0 loc_dfile0 (Some r) removable0 w = Inr ds
    \<Longrightarrow> constructed ds"


text \<open>Every path that the series resolves is absolute.\<close>

definition root_prefix_abs :: "'l DataSeries \<Rightarrow> bool" where
  "root_prefix_abs ds = (\<forall>locs w pth. DataSeries_path ds locs w = Inr pth \<longrightarrow> isabs pth)"


text \<open>
  The second world has the working directory of the first and every directory of it.
\<close>

definition extends :: "world \<Rightarrow> world \<Rightarrow> bool" where
  "extends w w' = (cwd w' = cwd w \<and> dirs_kept (tree w) (tree w'))"


text \<open>The prefix of the outermost series of the root chain.\<close>

function root_prefix :: "'l DataSeries \<Rightarrow> string" where
  "root_prefix ds = (case root ds of None \<Rightarrow> prefix ds | Some r \<Rightarrow> root_prefix r)"
  by pat_completeness auto
termination
  by (relation "measure size") (auto simp: size_root)

declare root_prefix.simps [simp del]


text \<open>
  The two halves of \<^verbatim>\<open>DataSeries.create\<close> after the root chain has been created: the
  write of the locator file into the new directory, and the whole of the second half.
\<close>

definition write_locs :: "'l DataSeries \<Rightarrow> 'l list \<Rightarrow> string \<Rightarrow> world \<Rightarrow> (error + unit) \<times> world" where
  "write_locs ds locs pth w2 =
     (case loc_dfile ds of
        None \<Rightarrow> (Inr (), w2)
      | Some df \<Rightarrow>
          (case self_locators ds locs of
             Inl e \<Rightarrow> (Inl e, w2)
           | Inr locs' \<Rightarrow> DataFile_write df locs' pth w2))"

definition create_self :: "'l DataSeries \<Rightarrow> 'l list \<Rightarrow> world \<Rightarrow> (error + unit) \<times> world" where
  "create_self ds locs w1 =
     (case DataSeries_exists ds locs w1 of
        Inl e \<Rightarrow> (Inl e, w1)
      | Inr b \<Rightarrow>
          if b then (Inr (), w1)
          else
            (case DataSeries_path ds locs w1 of
               Inl e \<Rightarrow> (Inl e, w1)
             | Inr pth \<Rightarrow>
                 (case makedirs pth w1 of
                    (Inl e, w2) \<Rightarrow> (Inl e, w2)
                  | (Inr _, w2) \<Rightarrow> write_locs ds locs pth w2)))"




text \<open>
  A path followed by names, each after one separator; and the paths it is applied to,
  which are not empty and do not end in a separator.
\<close>

definition pjoin :: "string \<Rightarrow> string list \<Rightarrow> string" where
  "pjoin p ns = p @ concat (map (\<lambda>n. sep # n) ns)"


text \<open>
  The second world is the first with directories added at some of the locations
  \<open>q0 @ take i ns\<close>, where there was nothing.
\<close>

definition grown :: "world \<Rightarrow> world \<Rightarrow> string list \<Rightarrow> string list \<Rightarrow> bool" where
  "grown w w' q0 ns =
     (cwd w' = cwd w
      \<and> (\<forall>x. map_of (tree w') x = map_of (tree w) x
             \<or> (map_of (tree w) x = None \<and> map_of (tree w') x = Some EDir
                 \<and> (\<exists>i. 0 < i \<and> i \<le> length ns \<and> x = q0 @ take i ns))))"

text \<open>
  The directories of a series without a root lie beneath its prefix, each at the names
  that \<^verbatim>\<open>map_\<close> gives for its tuple. For a set \<open>D\<close> of such lists of names, \<open>dir_locs D\<close> are
  the directories that \<^verbatim>\<open>makedirs\<close> makes for them, and \<open>level D k\<close> those that are \<open>k\<close> names
  beneath the prefix, the prefix itself for \<open>k = 0\<close>.
\<close>

definition dir_locs :: "string list set \<Rightarrow> string list set" where
  "dir_locs D = {take i ns | ns i. ns \<in> D \<and> 0 < i \<and> i \<le> length ns}"

definition level :: "string list set \<Rightarrow> nat \<Rightarrow> string list set" where
  "level D k = {ms. length ms = k \<and> (ms = [] \<or> ms \<in> dir_locs D)}"








section \<open>Path resolution\<close>

lemma walk_append:
  "walk t cur (cs @ ds) = (case walk t cur cs of Inl e \<Rightarrow> Inl e | Inr d \<Rightarrow> walk t d ds)"
  by (induction cs arbitrary: cur) (auto split: option.splits entry.splits)

lemma walk_dirs_kept:
  assumes "dirs_kept t t'" and "walk t cur cs = Inr d"
  shows "walk t' cur cs = Inr d"
  using assms(2)
proof (induction cs arbitrary: cur)
  case Nil
  then show ?case by simp
next
  case (Cons c cs)
  from Cons.prems have dir: "map_of t cur = Some EDir"
    by (auto split: option.splits entry.splits)
  with assms(1) have "map_of t' cur = Some EDir"
    by (simp add: dirs_kept_def)
  with Cons dir show ?case
    by simp
qed

lemma walk_from_dirs_kept:
  assumes "dirs_kept (tree w) (tree w')" and "cwd w' = cwd w" and "walk_from w p cs = Inr d"
  shows "walk_from w' p cs = Inr d"
  using assms walk_dirs_kept [OF assms(1)]
  by (auto simp: walk_from_def split: if_splits option.splits)

lemma walk_from_snoc:
  assumes "walk_from w p cs = Inr d" and "map_of (tree w) d = Some EDir"
    and "n \<noteq> []" and "n \<noteq> ''.''" and "n \<noteq> ''..''"
  shows "walk_from w p (cs @ [n]) = Inr (d @ [n])"
  using assms by (auto simp: walk_from_def walk_append split: if_splits option.splits)

lemma rstrip_sep_id: "p \<noteq> [] \<Longrightarrow> last p \<noteq> sep \<Longrightarrow> rstrip_sep p = p"
  by (cases p rule: rev_cases) (auto simp: rstrip_sep_def)

lemma str_split_not_Nil [simp]: "str_split s \<noteq> []"
  by (induction s) auto

lemma dirs_kept_update_file:
  assumes "map_of t q \<noteq> Some EDir"
  shows "dirs_kept t (AList.update q (EFile s) t)"
  using assms by (auto simp: dirs_kept_def update_conv')

lemma write_file_stat:
  assumes "write_file p s w = (Inr (), w')"
  shows "\<exists>q. stat w' p = Inr (q, EFile s)"
proof -
  let ?t = "tree w"
  from assms have p: "p \<noteq> []"
    by (auto simp: write_file_def split: if_splits)
  from assms p obtain d n where par: "parent_of w p = Inr (d, n)"
    by (auto simp: write_file_def split: sum.splits)
  from assms p par have nosep: "last p \<noteq> sep"
    by (auto simp: write_file_def split: option.splits entry.splits)
  from assms p par nosep have n: "n \<noteq> []" "n \<noteq> ''.''" "n \<noteq> ''..''"
    by (auto simp: write_file_def split: if_splits)
  from assms p par nosep n have nodir: "map_of ?t (d @ [n]) \<noteq> Some EDir"
    and w': "w' = w\<lparr>tree := AList.update (d @ [n]) (EFile s) ?t\<rparr>"
    by (auto simp: write_file_def split: option.splits entry.splits)
  let ?cs = "str_split p"
  from par p nosep have wk: "walk_from w p (butlast ?cs) = Inr d"
    and dd: "map_of ?t d = Some EDir" and nl: "n = last ?cs"
    by (auto simp: parent_of_def rstrip_sep_id Let_def split: sum.splits option.splits entry.splits)
  have kept: "dirs_kept ?t (tree w')"
    using nodir w' by (simp add: dirs_kept_update_file)
  have "walk_from w' p (butlast ?cs) = Inr d"
    using walk_from_dirs_kept [OF kept _ wk] w' by simp
  moreover have "map_of (tree w') d = Some EDir"
    using dd kept by (simp add: dirs_kept_def)
  moreover have "?cs = butlast ?cs @ [n]"
    using nl by simp
  ultimately have "walk_from w' p ?cs = Inr (d @ [n])"
    using n walk_from_snoc [of w' p "butlast ?cs" d n] by simp
  then have "namei w' p = Inr (d @ [n])"
    using p by (simp add: namei_def)
  moreover have "map_of (tree w') (d @ [n]) = Some (EFile s)"
    using w' by (simp add: update_conv')
  ultimately show ?thesis
    by (simp add: stat_def)
qed


section \<open>Locators and paths of a series\<close>

lemma DataSeries_path_unfold:
  "DataSeries_path ds locs w =
     (case root ds of
        None \<Rightarrow>
          if int (length locs) \<noteq> nlocs ds then Inl AssertionError
          else join_segment ds (prefix ds) locs w
      | Some r \<Rightarrow>
          if \<not> int (length locs) \<ge> nlocs ds then Inl AssertionError
          else
            (case DataSeries_path r (take (nat (int (length locs) - nlocs ds)) locs) w of
               Inl e \<Rightarrow> Inl e
             | Inr p \<Rightarrow>
                 if int (length (drop (nat (int (length locs) - nlocs ds)) locs)) \<noteq> nlocs ds
                 then Inl AssertionError
                 else join_segment ds p (drop (nat (int (length locs) - nlocs ds)) locs) w))"
proof (cases "root ds")
  case None
  then show ?thesis
    by (subst DataSeries_path.simps) (simp add: join_segment_def)
next
  case (Some r)
  show ?thesis
  proof (cases "nlocs ds \<le> int (length locs)")
    case False
    with Some show ?thesis
      by (subst DataSeries_path.simps) (simp add: root_locators_def)
  next
    case True
    show ?thesis
    proof (cases "DataSeries_path r (take (nat (int (length locs) - nlocs ds)) locs) w")
      case (Inl e)
      with Some True show ?thesis
        by (subst DataSeries_path.simps) (simp add: root_locators_def self_locators_def)
    next
      case (Inr p)
      with Some True show ?thesis
        by (subst DataSeries_path.simps)
           (simp add: root_locators_def self_locators_def join_segment_def)
    qed
  qed
qed

lemma root_locator_count_None: "root ds = None \<Longrightarrow> root_locator_count ds = 0"
  by (subst root_locator_count.simps) simp

lemma root_locator_count_Some:
  "root ds = Some r \<Longrightarrow> root_locator_count ds = nlocs r + root_locator_count r"
  by (subst root_locator_count.simps) simp

lemma DataSeries_path_length:
  "DataSeries_path ds locs w = Inr p \<Longrightarrow> int (length locs) = nlocs ds + root_locator_count ds"
proof (induction ds arbitrary: locs p rule: root_locator_count.induct)
  case (1 ds)
  show ?case
  proof (cases "root ds")
    case None
    with "1.prems" show ?thesis
      by (subst (asm) DataSeries_path_unfold) (simp add: root_locator_count_None split: if_splits)
  next
    case (Some r)
    let ?k = "nat (int (length locs) - nlocs ds)"
    from "1.prems" Some have ge: "nlocs ds \<le> int (length locs)"
      by (subst (asm) DataSeries_path_unfold) (simp split: if_splits)
    from "1.prems" Some ge obtain rp where rp: "DataSeries_path r (take ?k locs) w = Inr rp"
      by (subst (asm) DataSeries_path_unfold) (auto split: sum.splits)
    from "1.prems" Some ge rp have len: "int (length (drop ?k locs)) = nlocs ds"
      by (subst (asm) DataSeries_path_unfold) (simp split: if_splits)
    from "1.IH" [OF Some rp] have "int (length (take ?k locs)) = nlocs r + root_locator_count r" .
    with len ge Some show ?thesis
      by (simp add: root_locator_count_Some)
  qed
qed


section \<open>Absolute and relative paths\<close>

lemma isabs_Cons [simp]: "isabs (c # s) = (c = sep)"
  by (simp add: isabs_def)

lemma isabs_Nil [simp]: "\<not> isabs []"
  by (simp add: isabs_def)

lemma isabs_append: "isabs a \<Longrightarrow> isabs (a @ b)"
  by (cases a) auto

lemma isabs_normpath: "isabs p \<Longrightarrow> isabs (normpath p)"
proof -
  assume a: "isabs p"
  then have "initial_slashes p = 1 \<or> initial_slashes p = 2"
    by (simp add: initial_slashes_def)
  then obtain k where "initial_slashes p = Suc k"
    by auto
  with a show ?thesis
    by (cases p) (auto simp: normpath_def Let_def)
qed

lemma isabs_os_path_join: "isabs a \<Longrightarrow> isabs (os_path_join a b)"
  by (auto simp: os_path_join_def isabs_append)

lemma isabs_abspath: "abspath w p = Inr a \<Longrightarrow> isabs a"
  by (auto simp: abspath_def getcwd_def isabs_normpath isabs_os_path_join
      split: if_splits sum.splits option.splits)

lemma str_split_no_sep: "x \<in> set (str_split s) \<Longrightarrow> sep \<notin> set x"
proof (induction s arbitrary: x)
  case Nil
  then show ?case by simp
next
  case (Cons c s)
  show ?case
  proof (cases "c = sep")
    case True
    with Cons show ?thesis by auto
  next
    case False
    obtain y ys where ys: "str_split s = y # ys"
      by (cases "str_split s") auto
    with Cons.prems False have "x = c # y \<or> x \<in> set ys"
      by simp
    with Cons.IH ys False show ?thesis
      by auto
  qed
qed

lemma not_isabs_no_sep: "sep \<notin> set x \<Longrightarrow> \<not> isabs x"
  by (cases x) auto

lemma join_all_relative:
  assumes "a \<noteq> []" and "\<not> isabs a" and "\<forall>b \<in> set bs. \<not> isabs b"
  shows "os_path_join_all a bs \<noteq> [] \<and> \<not> isabs (os_path_join_all a bs)"
  using assms
proof (induction bs arbitrary: a)
  case Nil
  then show ?case by (simp add: os_path_join_all_def)
next
  case (Cons b bs)
  from Cons.prems have "os_path_join a b \<noteq> [] \<and> \<not> isabs (os_path_join a b)"
    by (cases a) (auto simp: os_path_join_def)
  with Cons show ?case
    by (simp add: os_path_join_all_def)
qed

lemma relpath_relative:
  assumes "relpath w pth = Inr r"
  shows "r \<noteq> [] \<and> \<not> isabs r"
proof -
  from assms have ne: "pth \<noteq> []"
    by (auto simp: relpath_def split: if_splits)
  from assms ne obtain s where s: "abspath w ''.'' = Inr s"
    by (cases "abspath w ''.''") (auto simp: relpath_def)
  from assms ne s obtain a where a: "abspath w pth = Inr a"
    by (cases "abspath w pth") (auto simp: relpath_def)
  define rel_list where "rel_list =
     replicate (length (filter (\<lambda>x. x \<noteq> []) (str_split s))
                - length (commonprefix (filter (\<lambda>x. x \<noteq> []) (str_split s))
                                        (filter (\<lambda>x. x \<noteq> []) (str_split a)))) ''..''
     @ drop (length (commonprefix (filter (\<lambda>x. x \<noteq> []) (str_split s))
                                   (filter (\<lambda>x. x \<noteq> []) (str_split a))))
            (filter (\<lambda>x. x \<noteq> []) (str_split a))"
  have "relpath w pth
        = (if rel_list = [] then Inr ''.'' else Inr (os_path_join_all (hd rel_list) (tl rel_list)))"
    using ne s a unfolding relpath_def rel_list_def Let_def by simp
  with assms have r': "r = (if rel_list = [] then ''.'' else os_path_join_all (hd rel_list) (tl rel_list))"
    by (simp split: if_splits)
  have el: "x \<noteq> [] \<and> \<not> isabs x" if "x \<in> set rel_list" for x
  proof -
    from that have "x = ''..'' \<or> x \<in> set (filter (\<lambda>x. x \<noteq> []) (str_split a))"
      unfolding rel_list_def by (auto dest: in_set_dropD)
    then show ?thesis
      by (auto simp: sep_def dest!: str_split_no_sep not_isabs_no_sep)
  qed
  show ?thesis
  proof (cases "rel_list = []")
    case True
    with r' show ?thesis by (simp add: sep_def)
  next
    case False
    then obtain x xs where xs: "rel_list = x # xs"
      by (cases rel_list) auto
    with el have "x \<noteq> []" "\<not> isabs x" "\<forall>b \<in> set xs. \<not> isabs b"
      by auto
    then have "os_path_join_all x xs \<noteq> [] \<and> \<not> isabs (os_path_join_all x xs)"
      by (rule join_all_relative)
    with r' xs show ?thesis by simp
  qed
qed

lemma join_segment_isabs:
  assumes "join_segment ds prefix' locs' w = Inr pth" and "isabs prefix'"
  shows "isabs pth"
proof -
  from assms(1) have rel: "relpath w (mapf ds locs') = Inr (mapf ds locs')"
    and pth: "pth = os_path_join prefix' (mapf ds locs')"
    by (auto simp: join_segment_def path_is_relative_def split: sum.splits if_splits)
  from relpath_relative [OF rel] have "\<not> isabs (mapf ds locs')"
    by simp
  with pth assms(2) show ?thesis
    by (simp add: isabs_os_path_join)
qed

lemma DataSeries_init_Inr:
  assumes "DataSeries_init prefix0 map0 nlocs0 depth0 loc_dfile0 root_ds removable0 w = Inr ds"
  shows "os_path_isdir w prefix0" and "abspath w prefix0 = Inr (prefix ds)" and "isabs (prefix ds)"
    and "root ds = root_ds"
proof -
  from assms show d: "os_path_isdir w prefix0"
    by (auto simp: DataSeries_init_def split: if_splits)
  from assms d show a: "abspath w prefix0 = Inr (prefix ds)"
    by (auto simp: DataSeries_init_def split: sum.splits)
  from a show "isabs (prefix ds)"
    by (rule isabs_abspath)
  from assms d show "root ds = root_ds"
    by (auto simp: DataSeries_init_def split: sum.splits)
qed

lemma path_isabs_step:
  assumes "DataSeries_path ds locs w = Inr pth"
    and "root ds = None \<Longrightarrow> isabs (prefix ds)"
    and "\<And>r. root ds = Some r \<Longrightarrow> root_prefix_abs r"
  shows "isabs pth"
proof (cases "root ds")
  case None
  with assms(1) have "join_segment ds (prefix ds) locs w = Inr pth"
    by (subst (asm) DataSeries_path_unfold) (simp split: if_splits)
  with assms(2) None show ?thesis
    by (auto intro: join_segment_isabs)
next
  case (Some r)
  let ?k = "nat (int (length locs) - nlocs ds)"
  from assms(1) Some obtain rp where rp: "DataSeries_path r (take ?k locs) w = Inr rp"
    and seg: "join_segment ds rp (drop ?k locs) w = Inr pth"
    by (subst (asm) DataSeries_path_unfold) (auto split: if_splits sum.splits)
  from assms(3) [OF Some] rp have "isabs rp"
    by (auto simp: root_prefix_abs_def)
  with seg show ?thesis
    by (rule join_segment_isabs)
qed

lemma constructed_root_prefix_abs: "constructed ds \<Longrightarrow> root_prefix_abs ds"
proof (induction rule: constructed.induct)
  case (rootless prefix0 map0 nlocs0 depth0 loc_dfile0 removable0 w ds)
  note i = DataSeries_init_Inr [OF rootless]
  show ?case
    unfolding root_prefix_abs_def
  proof (intro allI impI)
    fix locs w' pth
    assume "DataSeries_path ds locs w' = Inr pth"
    then show "isabs pth"
      using i(3,4) path_isabs_step [of ds locs w' pth] by simp
  qed
next
  case (rooted r prefix0 map0 nlocs0 depth0 loc_dfile0 removable0 w ds)
  note i = DataSeries_init_Inr [OF rooted.hyps(2)]
  show ?case
    unfolding root_prefix_abs_def
  proof (intro allI impI)
    fix locs w' pth
    assume "DataSeries_path ds locs w' = Inr pth"
    then show "isabs pth"
      using i(3,4) rooted.IH path_isabs_step [of ds locs w' pth] by simp
  qed
qed


section \<open>Splitting and joining\<close>

lemma str_split_sep_free: "sep \<notin> set x \<Longrightarrow> str_split x = [x]"
  by (induction x) auto

lemma str_split_append_sep: "str_split (a @ sep # b) = str_split a @ str_split b"
proof (induction a)
  case Nil
  then show ?case by simp
next
  case (Cons c a)
  obtain y ys where "str_split a = y # ys"
    by (cases "str_split a") auto
  with Cons show ?case
    by (cases "str_split (a @ sep # b)") auto
qed

lemma str_split_str_join:
  assumes "xs \<noteq> []" and "\<forall>x \<in> set xs. sep \<notin> set x"
  shows "str_split (str_join xs) = xs"
  using assms
proof (induction xs rule: str_join.induct)
  case 1
  then show ?case by simp
next
  case (2 x)
  then show ?case by (simp add: str_split_sep_free)
next
  case (3 x y ys)
  then show ?case
    by (simp add: str_split_append_sep str_split_sep_free)
qed

lemma os_path_split_snd: "snd (os_path_split p) = last (str_split p)"
proof (induction p rule: rev_induct)
  case Nil
  then show ?case by (simp add: os_path_split_def)
next
  case (snoc c p)
  show ?case
  proof (cases "c = sep")
    case True
    then have "str_split (p @ [c]) = str_split p @ str_split []"
      using str_split_append_sep [of p "[]"] by simp
    with True show ?thesis
      by (simp add: os_path_split_def Let_def)
  next
    case False
    have a: "last (str_split (p @ [c])) = last (str_split p) @ [c]"
    proof (induction p)
      case Nil
      with False show ?case by simp
    next
      case (Cons d p)
      obtain y ys where ys: "str_split p = y # ys"
        by (cases "str_split p") auto
      obtain z zs where zs: "str_split (p @ [c]) = z # zs"
        by (cases "str_split (p @ [c])") auto
      have len: "length (str_split (p @ [c])) = length (str_split p)"
      proof (induction p)
        case Nil
        with False show ?case by simp
      next
        case (Cons e p)
        then show ?case by simp
      qed
      from Cons ys zs len show ?case
        by (cases ys; cases zs) auto
    qed
    from snoc False have "snd (os_path_split (p @ [c])) = snd (os_path_split p) @ [c]"
      by (simp add: os_path_split_def Let_def)
    with snoc a show ?thesis by simp
  qed
qed

section \<open>Directories are kept\<close>

lemma dirs_kept_refl [simp]: "dirs_kept t t"
  by (simp add: dirs_kept_def)

lemma extends_refl [simp]: "extends w w"
  by (simp add: extends_def)

lemma extends_trans: "extends w w' \<Longrightarrow> extends w' w'' \<Longrightarrow> extends w w''"
  by (simp add: extends_def dirs_kept_def)

lemma dirs_kept_update_new:
  assumes "map_of t q = None"
  shows "dirs_kept t (AList.update q e t)"
  using assms by (auto simp: dirs_kept_def update_conv')

lemma os_mkdir_extends: "os_mkdir p w = (r, w') \<Longrightarrow> extends w w'"
  by (auto simp: os_mkdir_def extends_def dirs_kept_update_new
      split: if_splits sum.splits prod.splits)

lemma makedirs_extends: "makedirs nm w = (r, w') \<Longrightarrow> extends w w'"
proof (induction nm w arbitrary: r w' rule: makedirs.induct)
  case (1 nm w)
  let ?h = "fst (makedirs_split nm)" and ?t = "snd (makedirs_split nm)"
  show ?case
  proof (cases "?h \<noteq> [] \<and> ?t \<noteq> [] \<and> \<not> os_path_exists w ?h")
    case False
    with "1.prems" have "os_mkdir nm w = (r, w')"
      by (subst (asm) makedirs.simps) auto
    then show ?thesis
      by (rule os_mkdir_extends)
  next
    case True
    obtain r1 w1 where rec: "makedirs ?h w = (r1, w1)"
      by (cases "makedirs ?h w") auto
    from True rec have e1: "extends w w1"
      by (intro "1.IH") auto
    from "1.prems" True rec
    have "w' = w1 \<or> os_mkdir nm w1 = (r, w')"
      by (subst (asm) makedirs.simps) (auto split: sum.splits if_splits)
    then show ?thesis
      using e1 os_mkdir_extends extends_trans by blast
  qed
qed

lemma write_file_extends: "write_file p s w = (r, w') \<Longrightarrow> extends w w'"
  by (auto simp: write_file_def extends_def dirs_kept_update_file dirs_kept_update_new
      split: if_splits sum.splits prod.splits option.splits entry.splits)

lemma DataFile_write_extends: "DataFile_write df v dir_pth w = (r, w') \<Longrightarrow> extends w w'"
  by (auto simp: DataFile_write_def split: if_splits dest: write_file_extends)

lemma stat_extends:
  assumes "extends w w'" and "stat w p = Inr (q, EDir)"
  shows "stat w' p = Inr (q, EDir)"
proof -
  from assms(2) have ne: "p \<noteq> []" and wk: "walk_from w p (str_split p) = Inr q"
    and d: "map_of (tree w) q = Some EDir"
    by (auto simp: stat_def namei_def split: if_splits sum.splits option.splits)
  from assms(1) wk have "walk_from w' p (str_split p) = Inr q"
    by (auto simp: extends_def intro: walk_from_dirs_kept)
  moreover from assms(1) d have "map_of (tree w') q = Some EDir"
    by (simp add: extends_def dirs_kept_def)
  ultimately show ?thesis
    using ne by (simp add: stat_def namei_def)
qed

lemma os_path_isdir_iff: "os_path_isdir w p \<longleftrightarrow> (\<exists>q. stat w p = Inr (q, EDir))"
  by (auto simp: os_path_isdir_def split: sum.splits entry.splits)

lemma os_path_isdir_extends: "extends w w' \<Longrightarrow> os_path_isdir w p \<Longrightarrow> os_path_isdir w' p"
  using stat_extends by (auto simp: os_path_isdir_iff)

lemma str_split_replicate_sep: "str_split (replicate k sep) = replicate (Suc k) []"
  by (induction k) auto

lemma str_split_trailing: "str_split (s @ replicate k sep) = str_split s @ replicate k []"
proof (cases k)
  case 0
  then show ?thesis by simp
next
  case (Suc j)
  then have "str_split (s @ replicate k sep) = str_split (s @ sep # replicate j sep)"
    by simp
  also have "\<dots> = str_split s @ str_split (replicate j sep)"
    by (rule str_split_append_sep)
  finally show ?thesis
    using Suc by (simp add: str_split_replicate_sep replicate_append_same)
qed

lemma rstrip_sep_decomp: "\<exists>k. s = rstrip_sep s @ replicate k sep"
proof (induction s rule: rev_induct)
  case Nil
  show ?case by (simp add: rstrip_sep_def)
next
  case (snoc c s)
  show ?case
  proof (cases "c = sep")
    case True
    from snoc obtain k where "s = rstrip_sep s @ replicate k sep" ..
    moreover from True have "rstrip_sep (s @ [c]) = rstrip_sep s"
      by (simp add: rstrip_sep_def)
    ultimately have "s @ [c] = rstrip_sep (s @ [c]) @ replicate (Suc k) sep"
      using True by (metis append_assoc replicate_Suc replicate_append_same)
    then show ?thesis ..
  next
    case False
    then have "s @ [c] = rstrip_sep (s @ [c]) @ replicate 0 sep"
      by (simp add: rstrip_sep_def)
    then show ?thesis ..
  qed
qed

lemma rstrip_sep_last: "rstrip_sep s \<noteq> [] \<Longrightarrow> last (rstrip_sep s) \<noteq> sep"
proof -
  assume a: "rstrip_sep s \<noteq> []"
  have "dropWhile (\<lambda>c. c = sep) (rev s) \<noteq> []"
    using a by (simp add: rstrip_sep_def)
  then have "hd (dropWhile (\<lambda>c. c = sep) (rev s)) \<noteq> sep"
    using hd_dropWhile by blast
  then show ?thesis
    using a by (simp add: rstrip_sep_def last_rev)
qed

lemma last_str_split_nonempty: "s \<noteq> [] \<Longrightarrow> last s \<noteq> sep \<Longrightarrow> last (str_split s) \<noteq> []"
proof (induction s rule: rev_induct)
  case Nil
  then show ?case by simp
next
  case (snoc c s)
  then have "snd (os_path_split (s @ [c])) = snd (os_path_split s) @ [c]"
    by (simp add: os_path_split_def Let_def)
  then show ?case
    by (simp add: os_path_split_snd)
qed

lemma walk_empties:
  "map_of t q = Some EDir \<Longrightarrow> walk t q (replicate k []) = Inr q"
  by (induction k) auto

lemma walk_from_append:
  "walk_from w p (cs @ ds) =
     (case walk_from w p cs of Inl e \<Rightarrow> Inl e | Inr d \<Rightarrow> walk (tree w) d ds)"
  by (auto simp: walk_from_def walk_append split: option.splits)

lemma os_mkdir_isdir:
  assumes "os_mkdir p w = (Inr (), w')"
  shows "os_path_isdir w' p"
proof -
  let ?s = "rstrip_sep p"
  let ?cs = "str_split ?s"
  from assms have p: "p \<noteq> []" and s: "?s \<noteq> []"
    by (auto simp: os_mkdir_def split: if_splits)
  from assms p s obtain d n where par: "parent_of w p = Inr (d, n)"
    by (auto simp: os_mkdir_def split: sum.splits)
  from assms p s par have n: "n \<noteq> ''.''" "n \<noteq> ''..''"
    and new: "map_of (tree w) (d @ [n]) = None"
    and w': "w' = w\<lparr>tree := AList.update (d @ [n]) EDir (tree w)\<rparr>"
    by (auto simp: os_mkdir_def split: if_splits)
  from par have wk: "walk_from w p (butlast ?cs) = Inr d"
    and dd: "map_of (tree w) d = Some EDir" and nl: "n = last ?cs"
    by (auto simp: parent_of_def Let_def split: sum.splits option.splits entry.splits)
  from s have "last ?cs \<noteq> []"
    by (intro last_str_split_nonempty rstrip_sep_last)
  with nl have ne: "n \<noteq> []" by simp
  have ext: "extends w w'"
    using assms by (rule os_mkdir_extends)
  then have kept: "dirs_kept (tree w) (tree w')" and cw: "cwd w' = cwd w"
    by (simp_all add: extends_def)
  have wk': "walk_from w' p (butlast ?cs) = Inr d"
    using walk_from_dirs_kept [OF kept cw wk] .
  have dd': "map_of (tree w') d = Some EDir"
    using dd kept by (simp add: dirs_kept_def)
  have nd: "map_of (tree w') (d @ [n]) = Some EDir"
    using w' by (simp add: update_conv')
  obtain k where k: "p = ?s @ replicate k sep"
    using rstrip_sep_decomp by blast
  have sp: "str_split p = (butlast ?cs @ [n]) @ replicate k []"
    using nl str_split_trailing [of ?s k] k by simp
  have "walk_from w' p ((butlast ?cs @ [n]) @ replicate k []) = Inr (d @ [n])"
    using walk_from_snoc [OF wk' dd' ne n] nd
    by (subst walk_from_append) (simp add: walk_empties)
  then have "walk_from w' p (str_split p) = Inr (d @ [n])"
    by (simp only: sp)
  then show ?thesis
    using p nd by (simp add: os_path_isdir_def stat_def namei_def)
qed

lemma makedirs_isdir:
  assumes "makedirs nm w = (Inr (), w')" and "snd (makedirs_split nm) \<noteq> ''.''"
  shows "os_path_isdir w' nm"
proof -
  let ?h = "fst (makedirs_split nm)" and ?t = "snd (makedirs_split nm)"
  show ?thesis
  proof (cases "?h \<noteq> [] \<and> ?t \<noteq> [] \<and> \<not> os_path_exists w ?h")
    case False
    with assms(1) have "os_mkdir nm w = (Inr (), w')"
      by (subst (asm) makedirs.simps) auto
    then show ?thesis
      by (rule os_mkdir_isdir)
  next
    case True
    obtain r1 w1 where rec: "makedirs ?h w = (r1, w1)"
      by (cases "makedirs ?h w") auto
    from assms True rec have "os_mkdir nm w1 = (Inr (), w')"
      by (subst (asm) makedirs.simps) (auto split: sum.splits if_splits)
    then show ?thesis
      by (rule os_mkdir_isdir)
  qed
qed

section \<open>Normalised paths\<close>

lemma norm_step_elems:
  "x \<in> set (norm_step n acc c) \<Longrightarrow> x \<in> set acc \<or> (x = c \<and> c \<noteq> [] \<and> c \<noteq> ''.'')"
  by (auto simp: norm_step_def split: if_splits dest: in_set_butlastD)

lemma norm_comps_elems:
  "x \<in> set (foldl (norm_step n) acc cs)
     \<Longrightarrow> x \<in> set acc \<or> (x \<in> set cs \<and> x \<noteq> [] \<and> x \<noteq> ''.'')"
proof (induction cs arbitrary: acc)
  case Nil
  then show ?case by simp
next
  case (Cons c cs)
  from Cons.prems have "x \<in> set (foldl (norm_step n) (norm_step n acc c) cs)"
    by simp
  from Cons.IH [OF this] show ?case
    using norm_step_elems [of x n acc c] by auto
qed

lemma str_split_leading: "str_split (replicate k sep @ s) = replicate k [] @ str_split s"
  by (induction k) auto

lemma str_split_normpath:
  assumes "isabs p" and "x \<in> set (str_split (normpath p))" and "x \<noteq> []"
  shows "x \<noteq> ''.'' \<and> sep \<notin> set x"
proof -
  let ?n = "initial_slashes p"
  let ?comps = "foldl (norm_step ?n) [] (str_split p)"
  from assms(1) have n: "?n \<noteq> 0" and ne: "p \<noteq> []"
    by (auto simp: initial_slashes_def)
  then have np: "normpath p = replicate ?n sep @ str_join ?comps"
    by (auto simp: normpath_def Let_def)
  have el: "y \<noteq> [] \<and> y \<noteq> ''.'' \<and> sep \<notin> set y" if "y \<in> set ?comps" for y
    using norm_comps_elems [OF that] str_split_no_sep by auto
  show ?thesis
  proof (cases "?comps = []")
    case True
    with np assms(2,3) show ?thesis
      by (simp add: str_split_replicate_sep)
  next
    case False
    then have "str_split (str_join ?comps) = ?comps"
      using el by (intro str_split_str_join) auto
    with np assms(2,3) have "x \<in> set ?comps"
      by (simp add: str_split_leading)
    with el show ?thesis by simp
  qed
qed

lemma join_all_str_join:
  assumes "a \<noteq> []" and "last a \<noteq> sep" and "\<forall>b \<in> set bs. b \<noteq> [] \<and> sep \<notin> set b"
  shows "os_path_join_all a bs = (if bs = [] then a else a @ sep # str_join bs)"
  using assms
proof (induction bs arbitrary: a)
  case Nil
  then show ?case by (simp add: os_path_join_all_def)
next
  case (Cons b bs)
  from Cons.prems have b: "b \<noteq> []" "sep \<notin> set b"
    by auto
  then have nb: "\<not> isabs b"
    by (simp add: not_isabs_no_sep)
  with Cons.prems have j: "os_path_join a b = a @ sep # b"
    by (simp add: os_path_join_def)
  from b have "last (a @ sep # b) \<noteq> sep"
    by (cases b rule: rev_cases) auto
  with Cons.IH [of "a @ sep # b"] Cons.prems
  have "os_path_join_all (a @ sep # b) bs
        = (if bs = [] then a @ sep # b else (a @ sep # b) @ sep # str_join bs)"
    by simp
  with j show ?case
    by (cases bs) (simp_all add: os_path_join_all_def)
qed

text \<open>The shape of a path that \<^verbatim>\<open>relpath\<close> returns.\<close>

lemma relpath_shape:
  assumes "relpath w pth = Inr r"
  shows "r = ''.'' \<or> (\<exists>rl. rl \<noteq> [] \<and> r = str_join rl
                          \<and> (\<forall>x \<in> set rl. x \<noteq> [] \<and> x \<noteq> ''.'' \<and> sep \<notin> set x))"
proof -
  from assms have ne: "pth \<noteq> []"
    by (auto simp: relpath_def split: if_splits)
  from assms ne obtain s where s: "abspath w ''.'' = Inr s"
    by (cases "abspath w ''.''") (auto simp: relpath_def)
  from assms ne s obtain a where a: "abspath w pth = Inr a"
    by (cases "abspath w pth") (auto simp: relpath_def)
  define rel_list where "rel_list =
     replicate (length (filter (\<lambda>x. x \<noteq> []) (str_split s))
                - length (commonprefix (filter (\<lambda>x. x \<noteq> []) (str_split s))
                                        (filter (\<lambda>x. x \<noteq> []) (str_split a)))) ''..''
     @ drop (length (commonprefix (filter (\<lambda>x. x \<noteq> []) (str_split s))
                                   (filter (\<lambda>x. x \<noteq> []) (str_split a))))
            (filter (\<lambda>x. x \<noteq> []) (str_split a))"
  have "relpath w pth
        = (if rel_list = [] then Inr ''.'' else Inr (os_path_join_all (hd rel_list) (tl rel_list)))"
    using ne s a unfolding relpath_def rel_list_def Let_def by simp
  with assms have r': "r = (if rel_list = [] then ''.'' else os_path_join_all (hd rel_list) (tl rel_list))"
    by (simp split: if_splits)
  have an: "\<exists>p. isabs p \<and> a = normpath p"
  proof (cases "isabs pth")
    case True
    with a show ?thesis
      by (auto simp: abspath_def)
  next
    case False
    with a obtain c where "cwd w = Some c" and "a = normpath (os_path_join (sep # str_join c) pth)"
      by (auto simp: abspath_def getcwd_def split: option.splits)
    moreover have "isabs (os_path_join (sep # str_join c) pth)"
      by (simp add: isabs_os_path_join)
    ultimately show ?thesis
      by blast
  qed
  have el: "x \<noteq> [] \<and> x \<noteq> ''.'' \<and> sep \<notin> set x" if "x \<in> set rel_list" for x
  proof -
    from that have "x = ''..'' \<or> x \<in> set (filter (\<lambda>x. x \<noteq> []) (str_split a))"
      unfolding rel_list_def by (auto dest: in_set_dropD)
    then show ?thesis
      using an str_split_normpath by (auto simp: sep_def)
  qed
  show ?thesis
  proof (cases "rel_list = []")
    case True
    with r' show ?thesis by simp
  next
    case False
    then obtain x xs where xs: "rel_list = x # xs"
      by (cases rel_list) auto
    with el have x: "x \<noteq> []" "sep \<notin> set x" and rest: "\<forall>b \<in> set xs. b \<noteq> [] \<and> sep \<notin> set b"
      by auto
    from x have "last x \<noteq> sep"
      by (cases x rule: rev_cases) auto
    with x rest have "os_path_join_all x xs = (if xs = [] then x else x @ sep # str_join xs)"
      by (intro join_all_str_join) auto
    then have "os_path_join_all x xs = str_join (x # xs)"
      by (cases xs) auto
    with r' xs el False show ?thesis
      by (intro disjI2 exI [of _ rel_list]) simp
  qed
qed

lemma str_split_os_path_join_last:
  assumes "\<not> isabs b"
  shows "last (str_split (os_path_join a b)) = last (str_split b)"
proof -
  have "os_path_join a b = b \<or> (\<exists>a'. os_path_join a b = a' @ sep # b)"
  proof (cases "a = []")
    case True
    with assms show ?thesis by (simp add: os_path_join_def)
  next
    case False
    show ?thesis
    proof (cases "last a = sep")
      case True
      with False have "a = butlast a @ [sep]"
        by (metis append_butlast_last_id)
      then have "a @ b = butlast a @ sep # b"
        by (metis append.assoc append_Cons append_Nil)
      with assms True show ?thesis
        by (auto simp: os_path_join_def)
    next
      case False
      with assms show ?thesis
        by (auto simp: os_path_join_def)
    qed
  qed
  then show ?thesis
    by (auto simp: str_split_append_sep)
qed

lemma makedirs_split_tail:
  assumes "\<not> isabs b" and "last (str_split b) \<noteq> []"
  shows "snd (makedirs_split (os_path_join a b)) = last (str_split b)"
  using assms str_split_os_path_join_last [OF assms(1), of a]
  by (simp add: makedirs_split_def os_path_split_snd)

lemma dot_not_sep [simp]: "CHR ''.'' \<noteq> sep"
  by (simp add: sep_def)

lemma str_split_dot: "str_split ''.'' = [''.'']"
  by simp

lemma isdir_join_dot:
  assumes "os_path_isdir w p"
  shows "os_path_isdir w (os_path_join p ''.'')"
proof -
  from assms obtain q where st: "stat w p = Inr (q, EDir)"
    by (auto simp: os_path_isdir_iff)
  then have ne: "p \<noteq> []" and wk: "walk_from w p (str_split p) = Inr q"
    and d: "map_of (tree w) q = Some EDir"
    by (auto simp: stat_def namei_def split: if_splits sum.splits option.splits)
  have dot: "\<not> isabs ''.''"
    by (simp add: sep_def)
  show ?thesis
  proof (cases "last p = sep")
    case False
    with ne dot have j: "os_path_join p ''.'' = p @ sep # ''.''"
      by (simp add: os_path_join_def)
    have "walk_from w (p @ sep # ''.'') (str_split p @ [''.'']) = Inr q"
      using wk d ne by (subst walk_from_append) (cases p, auto simp: walk_from_def)
    then have "stat w (p @ sep # ''.'') = Inr (q, EDir)"
      using d by (simp add: stat_def namei_def str_split_append_sep str_split_dot)
    with j show ?thesis
      by (simp add: os_path_isdir_iff)
  next
    case True
    with ne have pa: "p = butlast p @ [sep]"
      by (metis append_butlast_last_id)
    from True ne dot have j: "os_path_join p ''.'' = butlast p @ sep # ''.''"
      using pa by (simp add: os_path_join_def)
    have sp: "str_split p = str_split (butlast p) @ [[]]"
      using str_split_append_sep [of "butlast p" "[]"] pa by simp
    have "isabs (butlast p @ sep # ''.'') = isabs (butlast p @ [sep])"
      by (cases "butlast p") auto
    then have ia: "isabs (butlast p @ sep # ''.'') = isabs p"
      using pa by metis
    from wk sp obtain q' where q': "walk_from w p (str_split (butlast p)) = Inr q'"
      by (cases "walk_from w p (str_split (butlast p))") (auto simp: walk_from_append)
    from wk sp q' have qq: "map_of (tree w) q' = Some EDir" "q' = q"
      by (auto simp: walk_from_append split: option.splits entry.splits)
    have "walk_from w (butlast p @ sep # ''.'') (str_split (butlast p) @ [''.'']) = Inr q"
      using q' qq ia by (subst walk_from_append) (auto simp: walk_from_def)
    then have "stat w (butlast p @ sep # ''.'') = Inr (q, EDir)"
      using d by (simp add: stat_def namei_def str_split_append_sep str_split_dot)
    with j show ?thesis
      by (simp add: os_path_isdir_iff)
  qed
qed

section \<open>Creating a directory of a series\<close>

lemma create_self_path_Inl:
  "DataSeries_path ds locs w = Inl e \<Longrightarrow> create_self ds locs w = (Inl e, w)"
  by (simp add: create_self_def DataSeries_exists_def)

lemma create_self_path_Inr:
  "DataSeries_path ds locs w = Inr pth \<Longrightarrow>
   create_self ds locs w =
     (if os_path_isdir w pth then (Inr (), w)
      else case makedirs pth w of
             (Inl e, w2) \<Rightarrow> (Inl e, w2)
           | (Inr _, w2) \<Rightarrow> write_locs ds locs pth w2)"
  by (simp add: create_self_def DataSeries_exists_def)

lemma write_locs_extends: "write_locs ds locs pth w = (r, w') \<Longrightarrow> extends w w'"
  by (auto simp: write_locs_def split: option.splits sum.splits dest: DataFile_write_extends)

lemma root_prefix_None: "root ds = None \<Longrightarrow> root_prefix ds = prefix ds"
  by (subst root_prefix.simps) simp

lemma root_prefix_Some: "root ds = Some r \<Longrightarrow> root_prefix ds = root_prefix r"
  by (subst root_prefix.simps) simp

lemma DataSeries_create_None:
  "root ds = None \<Longrightarrow> DataSeries_create ds locs w = create_self ds locs w"
  unfolding create_self_def write_locs_def by (subst DataSeries_create.simps) simp

lemma DataSeries_create_Some:
  assumes "root ds = Some r"
  shows "DataSeries_create ds locs w =
     (if \<not> int (length locs) \<ge> nlocs ds then (Inl AssertionError, w)
      else
        case DataSeries_create r (take (nat (int (length locs) - nlocs ds)) locs) w of
          (Inl e, w1) \<Rightarrow> (Inl e, w1)
        | (Inr _, w1) \<Rightarrow> create_self ds locs w1)"
proof (cases "nlocs ds \<le> int (length locs)")
  case False
  with assms show ?thesis
    by (subst DataSeries_create.simps) (simp add: root_locators_def)
next
  case True
  obtain r1 w1 where "DataSeries_create r (take (nat (int (length locs) - nlocs ds)) locs) w = (r1, w1)"
    by (cases "DataSeries_create r (take (nat (int (length locs) - nlocs ds)) locs) w") auto
  with assms True show ?thesis
    unfolding create_self_def write_locs_def
    by (subst DataSeries_create.simps) (cases r1; simp add: root_locators_def)
qed

lemma abspath_cwd: "cwd w = cwd w' \<Longrightarrow> abspath w = abspath w'"
  by (rule ext) (simp add: abspath_def getcwd_def)

lemma relpath_cwd: "cwd w = cwd w' \<Longrightarrow> relpath w = relpath w'"
  by (rule ext) (simp add: relpath_def abspath_cwd [of w w'] cong: sum.case_cong)

lemma join_segment_cwd:
  "cwd w = cwd w' \<Longrightarrow> join_segment ds p locs w = join_segment ds p locs w'"
  by (simp add: join_segment_def path_is_relative_def relpath_cwd [of w w'])

lemma DataSeries_path_cwd:
  "cwd w = cwd w' \<Longrightarrow> DataSeries_path ds locs w = DataSeries_path ds locs w'"
proof (induction ds arbitrary: locs rule: root_locator_count.induct)
  case (1 ds)
  show ?case
  proof (cases "root ds")
    case None
    with "1.prems" show ?thesis
      by (subst (1 2) DataSeries_path_unfold) (simp add: join_segment_cwd [of w w'])
  next
    case (Some r)
    from "1.IH" [OF Some "1.prems"] Some "1.prems" show ?thesis
      by (subst (1 2) DataSeries_path_unfold)
         (simp add: join_segment_cwd [of w w'] cong: sum.case_cong if_cong)
  qed
qed

lemma create_self_extends: "create_self ds locs w = (r, w') \<Longrightarrow> extends w w'"
proof (cases "DataSeries_path ds locs w")
  case (Inl e)
  assume "create_self ds locs w = (r, w')"
  with Inl show ?thesis
    by (simp add: create_self_path_Inl)
next
  case (Inr pth)
  assume a: "create_self ds locs w = (r, w')"
  obtain r2 w2 where m: "makedirs pth w = (r2, w2)"
    by (cases "makedirs pth w") auto
  from a Inr m have "w' = w \<or> w' = w2 \<or> write_locs ds locs pth w2 = (r, w')"
    by (auto simp: create_self_path_Inr split: if_splits sum.splits)
  then show ?thesis
    using makedirs_extends [OF m] write_locs_extends extends_trans by fastforce
qed

lemma DataSeries_create_extends: "DataSeries_create ds locs w = (r, w') \<Longrightarrow> extends w w'"
proof (induction ds arbitrary: locs w r w' rule: root_locator_count.induct)
  case (1 ds)
  show ?case
  proof (cases "root ds")
    case None
    with "1.prems" show ?thesis
      by (simp add: DataSeries_create_None create_self_extends)
  next
    case (Some rt)
    let ?rl = "take (nat (int (length locs) - nlocs ds)) locs"
    obtain r1 w1 where rc: "DataSeries_create rt ?rl w = (r1, w1)"
      by (cases "DataSeries_create rt ?rl w") auto
    from "1.IH" [OF Some rc] have e1: "extends w w1" .
    from "1.prems" Some rc have "w' = w \<or> w' = w1 \<or> create_self ds locs w1 = (r, w')"
      by (auto simp: DataSeries_create_Some split: if_splits sum.splits)
    then show ?thesis
      using e1 create_self_extends extends_trans by fastforce
  qed
qed

text \<open>After \<open>create_self\<close> has returned, the directory of the locators exists.\<close>

lemma create_self_isdir:
  assumes "create_self ds locs w = (Inr (), w')"
    and "DataSeries_path ds locs w = Inr pth"
    and "pth = os_path_join p mp" and "relpath w mp = Inr mp" and "os_path_isdir w p"
  shows "os_path_isdir w' pth"
proof (cases "os_path_isdir w pth")
  case True
  with assms(1,2) show ?thesis
    by (simp add: create_self_path_Inr)
next
  case False
  obtain r2 w2 where m: "makedirs pth w = (r2, w2)"
    by (cases "makedirs pth w") auto
  with assms(1,2) False have r2: "r2 = Inr ()"
    by (auto simp: create_self_path_Inr split: sum.splits)
  from assms(1,2) False m r2 have "write_locs ds locs pth w2 = (Inr (), w')"
    by (simp add: create_self_path_Inr)
  then have e2: "extends w2 w'"
    by (rule write_locs_extends)
  from assms(3,5) False have nd: "mp \<noteq> ''.''"
    using isdir_join_dot by blast
  with relpath_shape [OF assms(4)] obtain rl where rl: "rl \<noteq> []" "mp = str_join rl"
    "\<forall>x \<in> set rl. x \<noteq> [] \<and> x \<noteq> ''.'' \<and> sep \<notin> set x"
    by blast
  then have sp: "str_split mp = rl"
    by (simp add: str_split_str_join)
  from relpath_relative [OF assms(4)] have na: "\<not> isabs mp"
    by simp
  from sp rl have "last (str_split mp) \<noteq> []" "last (str_split mp) \<noteq> ''.''"
    by auto
  with na assms(3) have "snd (makedirs_split pth) \<noteq> ''.''"
    by (simp add: makedirs_split_tail)
  with m r2 have "os_path_isdir w2 pth"
    by (intro makedirs_isdir) simp_all
  with e2 show ?thesis
    by (rule os_path_isdir_extends)
qed

lemma join_segment_Inr:
  assumes "join_segment ds p locs w = Inr pth"
  shows "pth = os_path_join p (mapf ds locs)" and "relpath w (mapf ds locs) = Inr (mapf ds locs)"
  using assms
  by (auto simp: join_segment_def path_is_relative_def split: sum.splits if_splits)

lemma create_self_Inr_path:
  assumes "create_self ds locs w = (Inr (), w')"
  obtains pth where "DataSeries_path ds locs w = Inr pth"
  using assms by (cases "DataSeries_path ds locs w") (auto simp: create_self_path_Inl)

lemma DataSeries_create_isdir:
  assumes "DataSeries_create ds locs w = (Inr (), w')" and "os_path_isdir w (root_prefix ds)"
  shows "\<exists>pth. DataSeries_path ds locs w = Inr pth \<and> os_path_isdir w' pth"
  using assms
proof (induction ds arbitrary: locs w w' rule: root_locator_count.induct)
  case (1 ds)
  show ?case
  proof (cases "root ds")
    case None
    with "1.prems" have cs: "create_self ds locs w = (Inr (), w')"
      by (simp add: DataSeries_create_None)
    then obtain pth where pth: "DataSeries_path ds locs w = Inr pth"
      by (rule create_self_Inr_path)
    with None have seg: "join_segment ds (prefix ds) locs w = Inr pth"
      by (subst (asm) DataSeries_path_unfold) (simp split: if_splits)
    from "1.prems"(2) None have "os_path_isdir w (prefix ds)"
      by (simp add: root_prefix_None)
    with cs pth join_segment_Inr [OF seg] have "os_path_isdir w' pth"
      by (rule create_self_isdir)
    with pth show ?thesis by blast
  next
    case (Some rt)
    let ?k = "nat (int (length locs) - nlocs ds)"
    from "1.prems"(1) Some have ge: "nlocs ds \<le> int (length locs)"
      by (auto simp: DataSeries_create_Some split: if_splits)
    obtain r1 w1 where rc: "DataSeries_create rt (take ?k locs) w = (r1, w1)"
      by (cases "DataSeries_create rt (take ?k locs) w") auto
    with "1.prems"(1) Some ge have r1: "r1 = Inr ()" and cs: "create_self ds locs w1 = (Inr (), w')"
      by (auto simp: DataSeries_create_Some split: sum.splits)
    from "1.prems"(2) Some have "os_path_isdir w (root_prefix rt)"
      by (simp add: root_prefix_Some)
    with "1.IH" [OF Some] rc r1 obtain rp where rp: "DataSeries_path rt (take ?k locs) w = Inr rp"
      and rd: "os_path_isdir w1 rp"
      by blast
    have cw: "cwd w = cwd w1"
      using DataSeries_create_extends [OF rc] by (simp add: extends_def)
    from cs obtain pth where pth1: "DataSeries_path ds locs w1 = Inr pth"
      by (rule create_self_Inr_path)
    then have pth: "DataSeries_path ds locs w = Inr pth"
      by (simp add: DataSeries_path_cwd [OF cw])
    from rp have rp1: "DataSeries_path rt (take ?k locs) w1 = Inr rp"
      by (simp add: DataSeries_path_cwd [OF cw])
    from pth1 Some ge rp1 have seg: "join_segment ds rp (drop ?k locs) w1 = Inr pth"
      by (subst (asm) DataSeries_path_unfold) (simp split: if_splits)
    from cs pth1 join_segment_Inr [OF seg] rd have "os_path_isdir w' pth"
      by (rule create_self_isdir)
    with pth show ?thesis by blast
  qed
qed

lemma DataSeries_create_again:
  assumes "DataSeries_create ds locs w = (Inr (), w')" and "os_path_isdir w (root_prefix ds)"
    and "extends w' w''"
  shows "DataSeries_create ds locs w'' = (Inr (), w'')"
  using assms
proof (induction ds arbitrary: locs w w' rule: root_locator_count.induct)
  case (1 ds)
  from DataSeries_create_isdir [OF "1.prems"(1,2)]
  obtain pth where pth: "DataSeries_path ds locs w = Inr pth" and d: "os_path_isdir w' pth"
    by blast
  have cw: "cwd w = cwd w''"
    using DataSeries_create_extends [OF "1.prems"(1)] "1.prems"(3) by (simp add: extends_def)
  from pth have pth'': "DataSeries_path ds locs w'' = Inr pth"
    by (simp add: DataSeries_path_cwd [OF cw])
  from d "1.prems"(3) have "os_path_isdir w'' pth"
    using os_path_isdir_extends by blast
  with pth'' have self: "create_self ds locs w'' = (Inr (), w'')"
    by (simp add: create_self_path_Inr)
  show ?case
  proof (cases "root ds")
    case None
    with self show ?thesis
      by (simp add: DataSeries_create_None)
  next
    case (Some rt)
    let ?k = "nat (int (length locs) - nlocs ds)"
    from "1.prems"(1) Some have ge: "nlocs ds \<le> int (length locs)"
      by (auto simp: DataSeries_create_Some split: if_splits)
    obtain r1 w1 where rc: "DataSeries_create rt (take ?k locs) w = (r1, w1)"
      by (cases "DataSeries_create rt (take ?k locs) w") auto
    with "1.prems"(1) Some ge have r1: "r1 = Inr ()" and cs: "create_self ds locs w1 = (Inr (), w')"
      by (auto simp: DataSeries_create_Some split: sum.splits)
    from "1.prems"(2) Some have rd: "os_path_isdir w (root_prefix rt)"
      by (simp add: root_prefix_Some)
    have "extends w1 w''"
      using create_self_extends [OF cs] "1.prems"(3) extends_trans by blast
    with "1.IH" [OF Some] rc r1 rd have "DataSeries_create rt (take ?k locs) w'' = (Inr (), w'')"
      by blast
    with Some ge self show ?thesis
      by (simp add: DataSeries_create_Some)
  qed
qed

section \<open>A name in a directory\<close>

lemma stat_join_name:
  assumes "stat w p = Inr (q, EDir)"
    and "n \<noteq> []" and "sep \<notin> set n" and "n \<noteq> ''.''" and "n \<noteq> ''..''"
  shows "os_path_join p n \<noteq> []" and "last (os_path_join p n) \<noteq> sep"
    and "parent_of w (os_path_join p n) = Inr (q, n)"
    and "namei w (os_path_join p n) = Inr (q @ [n])"
proof -
  from assms(1) have ne: "p \<noteq> []" and wk: "walk_from w p (str_split p) = Inr q"
    and d: "map_of (tree w) q = Some EDir"
    by (auto simp: stat_def namei_def split: if_splits sum.splits option.splits)
  from assms(3) have na: "\<not> isabs n"
    by (rule not_isabs_no_sep)
  from assms(2) have "last n \<in> set n"
    by (rule last_in_set)
  with assms(3) have ln: "last n \<noteq> sep"
    by auto
  have "\<exists>a. os_path_join p n = a @ sep # n \<and> walk_from w p (str_split a) = Inr q
      \<and> isabs (a @ sep # n) = isabs p"
  proof (cases "last p = sep")
    case False
    with ne na have "os_path_join p n = p @ sep # n"
      by (simp add: os_path_join_def)
    moreover from ne have "isabs (p @ sep # n) = isabs p"
      by (cases p) auto
    ultimately show ?thesis
      using wk by blast
  next
    case True
    with ne have pa: "p = butlast p @ [sep]"
      by (metis append_butlast_last_id)
    from True ne na have j: "os_path_join p n = butlast p @ sep # n"
      using pa by (simp add: os_path_join_def)
    have sp: "str_split p = str_split (butlast p) @ [[]]"
      using str_split_append_sep [of "butlast p" "[]"] pa by simp
    from wk sp obtain q' where q': "walk_from w p (str_split (butlast p)) = Inr q'"
      by (cases "walk_from w p (str_split (butlast p))") (auto simp: walk_from_append)
    from wk sp q' have "q' = q"
      by (auto simp: walk_from_append split: option.splits entry.splits)
    with q' have w1: "walk_from w p (str_split (butlast p)) = Inr q"
      by simp
    have "isabs (butlast p @ sep # n) = isabs (butlast p @ [sep])"
      by (cases "butlast p") auto
    then have "isabs (butlast p @ sep # n) = isabs p"
      using pa by metis
    with j w1 show ?thesis
      by blast
  qed
  then obtain a where j: "os_path_join p n = a @ sep # n"
    and wa: "walk_from w p (str_split a) = Inr q" and ia: "isabs (a @ sep # n) = isabs p"
    by blast
  let ?s = "a @ sep # n"
  from j show "os_path_join p n \<noteq> []"
    by simp
  from j ln assms(2) show ls: "last (os_path_join p n) \<noteq> sep"
    by simp
  have sp: "str_split ?s = str_split a @ [n]"
    using assms(3) by (simp add: str_split_append_sep str_split_sep_free)
  have wf: "walk_from w ?s = walk_from w p"
    using ia by (intro ext) (simp add: walk_from_def)
  have rs: "rstrip_sep ?s = ?s"
    using ls j by (intro rstrip_sep_id) simp_all
  show "parent_of w (os_path_join p n) = Inr (q, n)"
    unfolding j parent_of_def rs Let_def sp butlast_snoc last_snoc wf
    using wa d by simp
  have "walk_from w p (str_split a @ [n]) = Inr (q @ [n])"
    using wa d assms(2,4,5) by (rule walk_from_snoc)
  then show "namei w (os_path_join p n) = Inr (q @ [n])"
    unfolding j namei_def sp wf by simp
qed



section \<open>Paths built from names\<close>

lemma pjoin_Nil [simp]: "pjoin p [] = p"
  by (simp add: pjoin_def)











section \<open>Resolving plain names\<close>






section \<open>Directories that \<^verbatim>\<open>makedirs\<close> adds\<close>

lemma grown_refl [simp]: "grown w w q0 ns"
  by (simp add: grown_def)












section \<open>The directories of a series\<close>

lemma dir_locs_empty [simp]: "dir_locs {} = {}"
  by (simp add: dir_locs_def)
























lemma take_prefix_length:
  assumes "0 < i" and "i \<le> length ns" and "ms = take i ns"
  shows "length ms \<le> length ns" and "ms \<noteq> ns @ [n]"
proof -
  from assms show "length ms \<le> length ns"
    by simp
  then show "ms \<noteq> ns @ [n]"
    by auto
qed


section \<open>When the calls of a \<^verbatim>\<open>create\<close> return\<close>










lemma stat_dir_exists: "stat w p = Inr (q, e) \<Longrightarrow> os_path_exists w p"
  by (simp add: os_path_exists_def)







section \<open>\<^verbatim>\<open>glob\<close> on the directories of a series\<close>

lemma level_0 [simp]: "level D 0 = {[]}"
  by (auto simp: level_def)













section \<open>What \<^verbatim>\<open>existing\<close> returns for a series without a root\<close>











section \<open>The removal guard\<close>

text \<open>
  Claim C6. A \<^verbatim>\<open>DataFile\<close>, \<^verbatim>\<open>DataSeries\<close> or \<^verbatim>\<open>DataSeriesFile\<close> whose \<^verbatim>\<open>removable\<close> flag is
  \<^verbatim>\<open>False\<close> refuses \<^verbatim>\<open>remove\<close>, whatever the directory or the locators: the call raises the
  \<^verbatim>\<open>ValueError\<close> of the guard and the filesystem is as it was.
\<close>

theorem remove_guard:
  "(\<not> DataFile.removable df \<longrightarrow> DataFile_remove df dir_pth w = (Inl ValueError, w))
   \<and> (\<not> DataSeries.removable ds \<longrightarrow> DataSeries_remove ds locs w = (Inl ValueError, w))
   \<and> (\<not> DataSeriesFile.removable dsf \<longrightarrow> DataSeriesFile_remove dsf locs' w = (Inl ValueError, w))"
  by (simp add: DataFile_remove_def DataSeries_remove_def DataSeriesFile_remove_def)

theorem remove_guard_witness:
  "\<not> DataFile.removable (DataFile_init ''info.txt'' id id)
   \<and> DataFile_remove (DataFile_init ''info.txt'' id id) ''/tmp/x''
         \<lparr>cwd = Some [], tree = [([], EDir), ([''tmp''], EDir)]\<rparr>
       = (Inl ValueError, \<lparr>cwd = Some [], tree = [([], EDir), ([''tmp''], EDir)]\<rparr>)
   \<and> \<not> DataSeries.removable (DataSeries ''/tmp'' (\<lambda>l. ''d'') 0 1 None None False)
   \<and> DataSeries_remove (DataSeries ''/tmp'' (\<lambda>l :: nat list. ''d'') 0 1 None None False) []
         \<lparr>cwd = Some [], tree = [([], EDir), ([''tmp''], EDir)]\<rparr>
       = (Inl ValueError, \<lparr>cwd = Some [], tree = [([], EDir), ([''tmp''], EDir)]\<rparr>)
   \<and> \<not> DataSeriesFile.removable
         (DataSeriesFile_init (DataSeries ''/tmp'' (\<lambda>l :: nat list. ''d'') 0 1 None None True)
            (DataFile_init ''info.txt'' id id))
   \<and> DataSeriesFile_remove
         (DataSeriesFile_init (DataSeries ''/tmp'' (\<lambda>l :: nat list. ''d'') 0 1 None None True)
            (DataFile_init ''info.txt'' id id)) []
         \<lparr>cwd = Some [], tree = [([], EDir), ([''tmp''], EDir)]\<rparr>
       = (Inl ValueError, \<lparr>cwd = Some [], tree = [([], EDir), ([''tmp''], EDir)]\<rparr>)"
  using remove_guard
    [of "DataFile_init ''info.txt'' id id" "''/tmp/x''"
        "\<lparr>cwd = Some [], tree = [([], EDir), ([''tmp''], EDir)]\<rparr>"
        "DataSeries ''/tmp'' (\<lambda>l :: nat list. ''d'') 0 1 None None False" "[]"
        "DataSeriesFile_init (DataSeries ''/tmp'' (\<lambda>l :: nat list. ''d'') 0 1 None None True)
           (DataFile_init ''info.txt'' id id)" "[]"]
  by (simp add: DataFile_init_def DataSeriesFile_init_def)

section \<open>Enumeration without a locator file\<close>

text \<open>
  Claim C7. For a series with \<^verbatim>\<open>nlocs > 0\<close> and no \<^verbatim>\<open>loc_dfile\<close>, \<^verbatim>\<open>existing\<close> raises the
  \<^verbatim>\<open>ValueError\<close> of the missing locator file, whatever \<^verbatim>\<open>root_locs\<close> and \<^verbatim>\<open>relative\<close> are
  and whatever the filesystem holds: the call itself raises, before any path is
  resolved or scanned.
\<close>

theorem existing_without_loc_dfile:
  assumes "0 < nlocs ds" and "loc_dfile ds = None"
  shows "DataSeries_existing (Suc k) fnm ds root_locs relative w = Some (Inl ValueError)"
  using assms by simp

theorem existing_without_loc_dfile_witness:
  "0 < nlocs (DataSeries ''/tmp'' (\<lambda>l :: nat list. ''d'') 1 1 None None False)
   \<and> loc_dfile (DataSeries ''/tmp'' (\<lambda>l :: nat list. ''d'') 1 1 None None False) = None
   \<and> DataSeries_existing (Suc 0) (\<lambda>p n. False)
         (DataSeries ''/tmp'' (\<lambda>l :: nat list. ''d'') 1 1 None None False) [] False
         \<lparr>cwd = Some [], tree = [([], EDir), ([''tmp''], EDir)]\<rparr>
       = Some (Inl ValueError)"
  using existing_without_loc_dfile
    [of "DataSeries ''/tmp'' (\<lambda>l :: nat list. ''d'') 1 1 None None False" 0 "\<lambda>p n. False" "[]" False
        "\<lparr>cwd = Some [], tree = [([], EDir), ([''tmp''], EDir)]\<rparr>"]
  by simp

section \<open>The \<^verbatim>\<open>removable\<close> flags of files\<close>

text \<open>
  Claim C9. The constructor of \<^verbatim>\<open>DataFile\<close> takes a name, a writer and a reader and no
  \<^verbatim>\<open>removable\<close> argument, and sets \<^verbatim>\<open>removable\<close> to \<^verbatim>\<open>False\<close>; so \<^verbatim>\<open>remove\<close> on a freshly
  constructed \<^verbatim>\<open>DataFile\<close> raises the \<^verbatim>\<open>ValueError\<close> of the guard for every directory, and
  leaves the filesystem as it was.
\<close>

theorem DataFile_init_not_removable:
  "DataFile.removable (DataFile_init nm wr rd) = False
   \<and> DataFile_remove (DataFile_init nm wr rd) dir_pth w = (Inl ValueError, w)"
  by (simp add: DataFile_init_def DataFile_remove_def)



section \<open>Reading what was written\<close>

text \<open>
  Claim C4, as stated: for every existing directory, \<^verbatim>\<open>read\<close> after \<^verbatim>\<open>write\<close> returns the value
  written. It fails where the name of the file is taken by a directory: for the file
  \<^verbatim>\<open>sub\<close> and the existing directory \<^verbatim>\<open>/tmp/x\<close> that holds a directory \<^verbatim>\<open>sub\<close>, \<^verbatim>\<open>write\<close>
  raises \<^verbatim>\<open>IsADirectoryError\<close> and \<^verbatim>\<open>read\<close> fails its assertion.
\<close>

theorem DataFile_read_after_write_counterexample:
  "reader (DataFile_init ''sub'' id id) (writer (DataFile_init ''sub'' id id) ''hello'') = ''hello''
   \<and> os_path_isdir
         \<lparr>cwd = Some [], tree = [([], EDir), ([''tmp''], EDir), ([''tmp'', ''x''], EDir),
                                ([''tmp'', ''x'', ''sub''], EDir)]\<rparr> ''/tmp/x''
   \<and> DataFile_write (DataFile_init ''sub'' id id) ''hello'' ''/tmp/x''
         \<lparr>cwd = Some [], tree = [([], EDir), ([''tmp''], EDir), ([''tmp'', ''x''], EDir),
                                ([''tmp'', ''x'', ''sub''], EDir)]\<rparr>
       = (Inl IsADirectoryError,
          \<lparr>cwd = Some [], tree = [([], EDir), ([''tmp''], EDir), ([''tmp'', ''x''], EDir),
                                 ([''tmp'', ''x'', ''sub''], EDir)]\<rparr>)
   \<and> DataFile_read (DataFile_init ''sub'' id id) ''/tmp/x''
         \<lparr>cwd = Some [], tree = [([], EDir), ([''tmp''], EDir), ([''tmp'', ''x''], EDir),
                                ([''tmp'', ''x'', ''sub''], EDir)]\<rparr>
       = (Inl AssertionError :: error + string)"
proof -
  let ?df = "DataFile_init ''sub'' id id :: string DataFile"
  let ?w = "\<lparr>cwd = Some [], tree = [([], EDir), ([''tmp''], EDir), ([''tmp'', ''x''], EDir),
                                ([''tmp'', ''x'', ''sub''], EDir)]\<rparr>"
  have "reader ?df (writer ?df ''hello'') = ''hello''"
    by (simp add: DataFile_init_def)
  moreover have "os_path_isdir ?w ''/tmp/x''"
    by code_simp
  moreover have "DataFile_write ?df ''hello'' ''/tmp/x'' ?w = (Inl IsADirectoryError, ?w)"
    by code_simp
  moreover have "DataFile_read ?df ''/tmp/x'' ?w = Inl AssertionError"
    by code_simp
  ultimately show ?thesis
    by simp
qed

text \<open>
  Claim C4, amended. Let the reader of a \<^verbatim>\<open>DataFile\<close> invert its writer on a value, let the
  name of the file be a single path component other than \<^verbatim>\<open>.\<close> and \<^verbatim>\<open>..\<close>, and let the
  directory exist and hold no directory of that name. Then \<^verbatim>\<open>write\<close> of the value into
  the directory returns, and \<^verbatim>\<open>read\<close> on the directory after it returns the value.
\<close>

theorem DataFile_read_after_write:
  assumes "reader df (writer df v) = v"
    and "os_path_isdir w dir_pth"
    and "name df \<noteq> []" and "sep \<notin> set (name df)" and "name df \<noteq> ''.''" and "name df \<noteq> ''..''"
    and "\<not> os_path_isdir w (DataFile_path df dir_pth)"
  shows "\<exists>w'. DataFile_write df v dir_pth w = (Inr (), w')
              \<and> DataFile_read df dir_pth w' = Inr v"
proof -
  from assms(2) obtain q where st: "stat w dir_pth = Inr (q, EDir)"
    by (auto simp: os_path_isdir_iff)
  then have ex: "os_path_exists w dir_pth"
    by (simp add: os_path_exists_def)
  let ?p = "DataFile_path df dir_pth"
  note sj = stat_join_name [OF st assms(3-6), folded DataFile_path_def]
  from assms(7) sj(4) have nd: "map_of (tree w) (q @ [name df]) \<noteq> Some EDir"
    by (auto simp: os_path_isdir_def stat_def split: option.splits)
  have "\<exists>w'. write_file ?p (writer df v) w = (Inr (), w')"
    using sj(1,2,3) nd assms(3,5,6)
    by (auto simp: write_file_def split: option.splits entry.splits)
  then obtain w' where wf: "write_file ?p (writer df v) w = (Inr (), w')"
    by blast
  with ex have wr: "DataFile_write df v dir_pth w = (Inr (), w')"
    by (simp add: DataFile_write_def)
  from wf obtain q' where "stat w' ?p = Inr (q', EFile (writer df v))"
    using write_file_stat by blast
  then have "DataFile_read df dir_pth w' = Inr v"
    using assms(1)
    by (simp add: DataFile_read_def DataFile_exists_def os_path_isfile_def read_file_def)
  with wr show ?thesis
    by blast
qed

theorem DataFile_read_after_write_witness:
  "reader (DataFile_init ''info.txt'' id id) (writer (DataFile_init ''info.txt'' id id) ''hello'') = ''hello''
   \<and> os_path_isdir
         \<lparr>cwd = Some [], tree = [([], EDir), ([''tmp''], EDir), ([''tmp'', ''x''], EDir)]\<rparr> ''/tmp/x''
   \<and> \<not> os_path_isdir
         \<lparr>cwd = Some [], tree = [([], EDir), ([''tmp''], EDir), ([''tmp'', ''x''], EDir)]\<rparr>
         (DataFile_path (DataFile_init ''info.txt'' id id) ''/tmp/x'')
   \<and> DataFile_write (DataFile_init ''info.txt'' id id) ''hello'' ''/tmp/x''
         \<lparr>cwd = Some [], tree = [([], EDir), ([''tmp''], EDir), ([''tmp'', ''x''], EDir)]\<rparr>
       = (Inr (), \<lparr>cwd = Some [], tree = [([], EDir), ([''tmp''], EDir), ([''tmp'', ''x''], EDir),
                                       ([''tmp'', ''x'', ''info.txt''], EFile ''hello'')]\<rparr>)
   \<and> DataFile_read (DataFile_init ''info.txt'' id id) ''/tmp/x''
         \<lparr>cwd = Some [], tree = [([], EDir), ([''tmp''], EDir), ([''tmp'', ''x''], EDir),
                                ([''tmp'', ''x'', ''info.txt''], EFile ''hello'')]\<rparr>
       = Inr ''hello''"
proof -
  let ?df = "DataFile_init ''info.txt'' id id :: string DataFile"
  let ?w = "\<lparr>cwd = Some [], tree = [([], EDir), ([''tmp''], EDir), ([''tmp'', ''x''], EDir)]\<rparr>"
  let ?w' = "\<lparr>cwd = Some [], tree = [([], EDir), ([''tmp''], EDir), ([''tmp'', ''x''], EDir),
                                       ([''tmp'', ''x'', ''info.txt''], EFile ''hello'')]\<rparr>"
  have h1: "reader ?df (writer ?df ''hello'') = ''hello''"
    by (simp add: DataFile_init_def)
  have h2: "os_path_isdir ?w ''/tmp/x''"
    by code_simp
  have h3: "name ?df \<noteq> []" "sep \<notin> set (name ?df)" "name ?df \<noteq> ''.''" "name ?df \<noteq> ''..''"
    by (simp_all add: DataFile_init_def sep_def)
  have h4: "\<not> os_path_isdir ?w (DataFile_path ?df ''/tmp/x'')"
    by code_simp
  have h5: "DataFile_write ?df ''hello'' ''/tmp/x'' ?w = (Inr (), ?w')"
    by code_simp
  from DataFile_read_after_write [OF h1 h2 h3 h4] h5
  have "DataFile_read ?df ''/tmp/x'' ?w' = Inr ''hello''"
    by simp
  with h1 h2 h4 h5 show ?thesis
    by simp
qed

section \<open>The path of a locator tuple\<close>

text \<open>
  Claim C2, as stated: for every tuple at least as long as \<^verbatim>\<open>nlocs\<close> plus the arity of the
  root chain, \<^verbatim>\<open>path\<close> is the root's path on the leading locators joined with the segment
  of the trailing \<^verbatim>\<open>nlocs\<close> ones. It fails for a tuple that is longer: on \<^verbatim>\<open>(0, 1, 2)\<close> the
  series of the example would give \<^verbatim>\<open>/tmp/x/1/2\<close>, and \<^verbatim>\<open>path\<close> fails its assertion
  \<^verbatim>\<open>len(locs) == self.nlocs\<close>.
\<close>

theorem DataSeries_path_by_parts_counterexample:
  "nlocs (DataSeries ''/tmp/x'' format_locs 2 2 None None False)
     + root_locator_count (DataSeries ''/tmp/x'' format_locs 2 2 None None False)
     \<le> int (length [0, 1, 2 :: int])
   \<and> path_by_parts (DataSeries ''/tmp/x'' format_locs 2 2 None None False) [0, 1, 2]
         \<lparr>cwd = Some [''home''], tree = [([], EDir), ([''home''], EDir)]\<rparr>
       = Inr ''/tmp/x/1/2''
   \<and> DataSeries_path (DataSeries ''/tmp/x'' format_locs 2 2 None None False) [0, 1, 2]
         \<lparr>cwd = Some [''home''], tree = [([], EDir), ([''home''], EDir)]\<rparr>
       = Inl AssertionError"
proof -
  let ?ds = "DataSeries ''/tmp/x'' format_locs 2 2 None None False"
  let ?w = "\<lparr>cwd = Some [''home''], tree = [([], EDir), ([''home''], EDir)]\<rparr>"
  have c: "root_locator_count ?ds = 0"
    by (simp add: root_locator_count_None)
  have p: "path_by_parts ?ds [0, 1, 2] ?w = Inr ''/tmp/x/1/2''"
    by code_simp
  have q: "DataSeries_path ?ds [0, 1, 2] ?w = Inl AssertionError"
    by (subst DataSeries_path_unfold) simp
  show ?thesis
    using c p q by simp
qed

text \<open>
  Claim C2, amended. For a tuple whose length is exactly \<^verbatim>\<open>nlocs\<close> plus the arity of the root
  chain (that arity not negative), \<^verbatim>\<open>path\<close> is the root's path on the leading locators, or
  the series' own prefix when there is no root, joined with the segment that \<^verbatim>\<open>map_\<close> gives
  for the trailing \<^verbatim>\<open>nlocs\<close> locators, errors included; and \<^verbatim>\<open>path\<close> returns a path for
  tuples of that length only. The witness is the example of the claim: prefix
  \<^verbatim>\<open>/tmp/x\<close>, two locators, depth two, \<^verbatim>\<open>path((1, 2)) == "/tmp/x/1/2"\<close>.
\<close>

theorem DataSeries_path_by_parts:
  "(int (length locs) = nlocs ds + root_locator_count ds \<and> 0 \<le> root_locator_count ds
      \<longrightarrow> DataSeries_path ds locs w = path_by_parts ds locs w)
   \<and> (\<forall>p. DataSeries_path ds locs w = Inr p
      \<longrightarrow> int (length locs) = nlocs ds + root_locator_count ds)"
proof (intro conjI impI allI)
  fix p
  assume "DataSeries_path ds locs w = Inr p"
  then show "int (length locs) = nlocs ds + root_locator_count ds"
    by (rule DataSeries_path_length)
next
  assume a: "int (length locs) = nlocs ds + root_locator_count ds \<and> 0 \<le> root_locator_count ds"
  let ?k = "nat (int (length locs) - nlocs ds)"
  show "DataSeries_path ds locs w = path_by_parts ds locs w"
  proof (cases "root ds")
    case None
    then have "root_locator_count ds = 0"
      by (rule root_locator_count_None)
    with a None show ?thesis
      by (subst DataSeries_path_unfold) (simp add: path_by_parts_def)
  next
    case (Some r)
    from a have ge: "nlocs ds \<le> int (length locs)"
      by simp
    show ?thesis
    proof (cases "DataSeries_path r (take ?k locs) w")
      case (Inl e)
      with Some ge show ?thesis
        by (subst DataSeries_path_unfold) (simp add: path_by_parts_def)
    next
      case (Inr rp)
      from DataSeries_path_length [OF Inr] have "int (length (take ?k locs)) = root_locator_count ds"
        using Some by (simp add: root_locator_count_Some)
      with a have "int (length (drop ?k locs)) = nlocs ds"
        by simp
      with Some ge Inr show ?thesis
        by (subst DataSeries_path_unfold) (simp add: path_by_parts_def)
    qed
  qed
qed


theorem DataSeries_path_by_parts_witness:
  "int (length [1, 2 :: int])
     = nlocs (DataSeries ''/tmp/x'' format_locs 2 2 None None False)
       + root_locator_count (DataSeries ''/tmp/x'' format_locs 2 2 None None False)
   \<and> 0 \<le> root_locator_count (DataSeries ''/tmp/x'' format_locs 2 2 None None False)
   \<and> path_by_parts (DataSeries ''/tmp/x'' format_locs 2 2 None None False) [1, 2]
         \<lparr>cwd = Some [''home''], tree = [([], EDir), ([''home''], EDir)]\<rparr>
       = Inr ''/tmp/x/1/2''
   \<and> DataSeries_path (DataSeries ''/tmp/x'' format_locs 2 2 None None False) [1, 2]
         \<lparr>cwd = Some [''home''], tree = [([], EDir), ([''home''], EDir)]\<rparr>
       = Inr ''/tmp/x/1/2''"
proof -
  let ?ds = "DataSeries ''/tmp/x'' format_locs 2 2 None None False"
  let ?w = "\<lparr>cwd = Some [''home''], tree = [([], EDir), ([''home''], EDir)]\<rparr>"
  have c: "root_locator_count ?ds = 0"
    by (simp add: root_locator_count_None)
  have p: "path_by_parts ?ds [1, 2] ?w = Inr ''/tmp/x/1/2''"
    by code_simp
  show ?thesis
    using c p DataSeries_path_by_parts [of "[1, 2]" ?ds ?w] by simp
qed


section \<open>The prefix of a series\<close>

text \<open>
  Claim C10. \<^verbatim>\<open>DataSeries.__init__\<close> fails its assertion when the prefix is not an existing
  directory. When it returns, the prefix was an existing directory and the stored prefix
  is \<^verbatim>\<open>os.path.abspath\<close> of it, an absolute path; and every path that \<^verbatim>\<open>path\<close> returns
  later, in any state of the filesystem, for the series or for a series that has it in
  its root chain, is absolute, also when the constructor was given a relative prefix.
\<close>

theorem DataSeries_init_prefix:
  "(\<not> os_path_isdir w prefix0
      \<longrightarrow> DataSeries_init prefix0 map0 nlocs0 depth0 loc_dfile0 root_ds removable0 w
            = Inl AssertionError)
   \<and> (DataSeries_init prefix0 map0 nlocs0 depth0 loc_dfile0 root_ds removable0 w = Inr ds
      \<longrightarrow> os_path_isdir w prefix0 \<and> abspath w prefix0 = Inr (prefix ds) \<and> isabs (prefix ds))
   \<and> (DataSeries_init prefix0 map0 nlocs0 depth0 loc_dfile0 root_ds removable0 w = Inr ds
        \<and> (\<forall>r. root_ds = Some r \<longrightarrow> constructed r)
      \<longrightarrow> (\<forall>locs w' pth. DataSeries_path ds locs w' = Inr pth \<longrightarrow> isabs pth))"
proof (intro conjI impI)
  assume "\<not> os_path_isdir w prefix0"
  then show "DataSeries_init prefix0 map0 nlocs0 depth0 loc_dfile0 root_ds removable0 w
            = Inl AssertionError"
    by (simp add: DataSeries_init_def)
next
  assume "DataSeries_init prefix0 map0 nlocs0 depth0 loc_dfile0 root_ds removable0 w = Inr ds"
  then show "os_path_isdir w prefix0" "abspath w prefix0 = Inr (prefix ds)" "isabs (prefix ds)"
    by (rule DataSeries_init_Inr)+
next
  assume a: "DataSeries_init prefix0 map0 nlocs0 depth0 loc_dfile0 root_ds removable0 w = Inr ds
        \<and> (\<forall>r. root_ds = Some r \<longrightarrow> constructed r)"
  then have "constructed ds"
    by (cases root_ds) (auto intro: constructed.intros)
  then show "\<forall>locs w' pth. DataSeries_path ds locs w' = Inr pth \<longrightarrow> isabs pth"
    using constructed_root_prefix_abs by (auto simp: root_prefix_abs_def)
qed


theorem DataSeries_init_prefix_witness:
  "os_path_isdir \<lparr>cwd = Some [''tmp''], tree = [([], EDir), ([''tmp''], EDir), ([''tmp'', ''x''], EDir)]\<rparr> ''x''
   \<and> DataSeries_init ''x'' format_locs 2 2 None None False
         \<lparr>cwd = Some [''tmp''], tree = [([], EDir), ([''tmp''], EDir), ([''tmp'', ''x''], EDir)]\<rparr>
       = Inr (DataSeries ''/tmp/x'' format_locs 2 2 None None False)
   \<and> isabs (prefix (DataSeries ''/tmp/x'' format_locs 2 2 None None False))
   \<and> DataSeries_path (DataSeries ''/tmp/x'' format_locs 2 2 None None False) [1, 2]
         \<lparr>cwd = Some [''tmp''], tree = [([], EDir), ([''tmp''], EDir), ([''tmp'', ''x''], EDir)]\<rparr>
       = Inr ''/tmp/x/1/2''
   \<and> isabs ''/tmp/x/1/2''
   \<and> \<not> os_path_isdir \<lparr>cwd = Some [''tmp''], tree = [([], EDir), ([''tmp''], EDir), ([''tmp'', ''x''], EDir)]\<rparr> ''y''
   \<and> DataSeries_init ''y'' format_locs 2 2 None (None :: int DataSeries option) False
         \<lparr>cwd = Some [''tmp''], tree = [([], EDir), ([''tmp''], EDir), ([''tmp'', ''x''], EDir)]\<rparr>
       = Inl AssertionError"
proof -
  let ?w = "\<lparr>cwd = Some [''tmp''], tree = [([], EDir), ([''tmp''], EDir), ([''tmp'', ''x''], EDir)]\<rparr>"
  let ?ds = "DataSeries ''/tmp/x'' format_locs 2 2 None None False"
  have d: "os_path_isdir ?w ''x''"
    by code_simp
  have a: "abspath ?w ''x'' = Inr ''/tmp/x''"
    by code_simp
  have i: "DataSeries_init ''x'' format_locs 2 2 None None False ?w = Inr ?ds"
    using d a by (simp add: DataSeries_init_def)
  have p: "DataSeries_path ?ds [1, 2] ?w = Inr ''/tmp/x/1/2''"
    by code_simp
  have n: "\<not> os_path_isdir ?w ''y''"
    by code_simp
  have "isabs ''/tmp/x/1/2''"
    using i p DataSeries_init_prefix [of ?w "''x''" format_locs 2 2 None None False ?ds]
    by blast
  moreover have "isabs (prefix ?ds)"
    using i DataSeries_init_prefix [of ?w "''x''" format_locs 2 2 None None False ?ds]
    by blast
  moreover have "DataSeries_init ''y'' format_locs 2 2 None (None :: int DataSeries option) False ?w
       = Inl AssertionError"
    using n DataSeries_init_prefix [of ?w "''y''" format_locs 2 2 None None False ?ds]
    by blast
  ultimately show ?thesis
    using d i p n by simp
qed

section \<open>Creating twice\<close>

text \<open>
  Claim C3. \<^verbatim>\<open>DataSeries.create\<close> is idempotent: after \<^verbatim>\<open>create(locs)\<close> has returned, a second
  \<^verbatim>\<open>create(locs)\<close> returns without an error and leaves the filesystem exactly as the first
  call left it, so the same directories exist and no locator file is rewritten. The
  prefix of the outermost series is an existing directory when the first call is made,
  as the constructor of the series asserts it to be.
\<close>

theorem DataSeries_create_idempotent:
  assumes "DataSeries_create ds locs w = (Inr (), w')" and "os_path_isdir w (root_prefix ds)"
  shows "DataSeries_create ds locs w' = (Inr (), w')"
  using assms extends_refl by (rule DataSeries_create_again)

theorem DataSeries_create_idempotent_witness:
  "DataSeries_create
     (DataSeries ''/tmp/x'' (\<lambda>l. ''c'' @ str_join l) 1 1 (Some (DataFile_init ''loc'' str_join str_split))
        (Some (DataSeries ''/tmp/x'' (\<lambda>l. ''r'' @ str_join l) 1 1
                (Some (DataFile_init ''loc'' str_join str_split)) None False)) False)
     [''1'', ''a'']
     \<lparr>cwd = Some [''home''],
        tree = [([], EDir), ([''home''], EDir), ([''tmp''], EDir), ([''tmp'', ''x''], EDir)]\<rparr>
   = (Inr (),
      \<lparr>cwd = Some [''home''],
         tree = [([], EDir), ([''home''], EDir), ([''tmp''], EDir), ([''tmp'', ''x''], EDir),
                 ([''tmp'', ''x'', ''r1''], EDir),
                 ([''tmp'', ''x'', ''r1'', ''loc''], EFile ''1''),
                 ([''tmp'', ''x'', ''r1'', ''ca''], EDir),
                 ([''tmp'', ''x'', ''r1'', ''ca'', ''loc''], EFile ''a'')]\<rparr>)
   \<and> DataSeries_create
     (DataSeries ''/tmp/x'' (\<lambda>l. ''c'' @ str_join l) 1 1 (Some (DataFile_init ''loc'' str_join str_split))
        (Some (DataSeries ''/tmp/x'' (\<lambda>l. ''r'' @ str_join l) 1 1
                (Some (DataFile_init ''loc'' str_join str_split)) None False)) False)
     [''1'', ''a'']
     \<lparr>cwd = Some [''home''],
        tree = [([], EDir), ([''home''], EDir), ([''tmp''], EDir), ([''tmp'', ''x''], EDir),
                ([''tmp'', ''x'', ''r1''], EDir),
                ([''tmp'', ''x'', ''r1'', ''loc''], EFile ''1''),
                ([''tmp'', ''x'', ''r1'', ''ca''], EDir),
                ([''tmp'', ''x'', ''r1'', ''ca'', ''loc''], EFile ''a'')]\<rparr>
   = (Inr (),
      \<lparr>cwd = Some [''home''],
         tree = [([], EDir), ([''home''], EDir), ([''tmp''], EDir), ([''tmp'', ''x''], EDir),
                 ([''tmp'', ''x'', ''r1''], EDir),
                 ([''tmp'', ''x'', ''r1'', ''loc''], EFile ''1''),
                 ([''tmp'', ''x'', ''r1'', ''ca''], EDir),
                 ([''tmp'', ''x'', ''r1'', ''ca'', ''loc''], EFile ''a'')]\<rparr>)"
proof -
  let ?ds = "DataSeries ''/tmp/x'' (\<lambda>l. ''c'' @ str_join l) 1 1
     (Some (DataFile_init ''loc'' str_join str_split))
     (Some (DataSeries ''/tmp/x'' (\<lambda>l. ''r'' @ str_join l) 1 1
             (Some (DataFile_init ''loc'' str_join str_split)) None False)) False"
  let ?w = "\<lparr>cwd = Some [''home''],
        tree = [([], EDir), ([''home''], EDir), ([''tmp''], EDir), ([''tmp'', ''x''], EDir)]\<rparr>"
  let ?w' = "\<lparr>cwd = Some [''home''],
         tree = [([], EDir), ([''home''], EDir), ([''tmp''], EDir), ([''tmp'', ''x''], EDir),
                 ([''tmp'', ''x'', ''r1''], EDir),
                 ([''tmp'', ''x'', ''r1'', ''loc''], EFile ''1''),
                 ([''tmp'', ''x'', ''r1'', ''ca''], EDir),
                 ([''tmp'', ''x'', ''r1'', ''ca'', ''loc''], EFile ''a'')]\<rparr>"
  have c: "DataSeries_create ?ds [''1'', ''a''] ?w = (Inr (), ?w')"
    by code_simp
  have d: "os_path_isdir ?w (root_prefix ?ds)"
    by code_simp
  show ?thesis
    using c DataSeries_create_idempotent [OF c d] by simp
qed

section \<open>The \<^verbatim>\<open>relative\<close> flag of \<^verbatim>\<open>existing\<close>\<close>

text \<open>
  Claim C5 has \<^verbatim>\<open>existing(root_locs, relative=True)\<close> return the bare locators of the series
  itself for every prefix \<^verbatim>\<open>root_locs\<close>, also for one shorter than the arity of the root
  chain. Evaluated on a child series with one locator under a root with one locator,
  after \<^verbatim>\<open>create(('1', 'a'))\<close>: with the full prefix \<^verbatim>\<open>('1',)\<close> the call returns the bare
  \<^verbatim>\<open>('a',)\<close>, and with the empty prefix it returns \<^verbatim>\<open>('1', 'a')\<close>, root locator included,
  because the recursive calls \<^verbatim>\<open>self.existing(root_locs_)\<close> do not pass \<^verbatim>\<open>relative\<close> on.
\<close>

theorem existing_relative_not_forwarded:
  "DataSeries_existing 3 (\<lambda>p n. False)
     (DataSeries ''/tmp/x'' (\<lambda>l. ''c'' @ str_join l) 1 1 (Some (DataFile_init ''loc'' str_join str_split))
        (Some (DataSeries ''/tmp/x'' (\<lambda>l. ''r'' @ str_join l) 1 1
                (Some (DataFile_init ''loc'' str_join str_split)) None False)) False)
     [] True
     \<lparr>cwd = Some [''home''],
        tree = [([], EDir), ([''home''], EDir), ([''tmp''], EDir), ([''tmp'', ''x''], EDir),
                ([''tmp'', ''x'', ''r1''], EDir),
                ([''tmp'', ''x'', ''r1'', ''loc''], EFile ''1''),
                ([''tmp'', ''x'', ''r1'', ''ca''], EDir),
                ([''tmp'', ''x'', ''r1'', ''ca'', ''loc''], EFile ''a'')]\<rparr>
   = Some (Inr [[''1'', ''a'']])
   \<and> DataSeries_existing 3 (\<lambda>p n. False)
     (DataSeries ''/tmp/x'' (\<lambda>l. ''c'' @ str_join l) 1 1 (Some (DataFile_init ''loc'' str_join str_split))
        (Some (DataSeries ''/tmp/x'' (\<lambda>l. ''r'' @ str_join l) 1 1
                (Some (DataFile_init ''loc'' str_join str_split)) None False)) False)
     [''1''] True
     \<lparr>cwd = Some [''home''],
        tree = [([], EDir), ([''home''], EDir), ([''tmp''], EDir), ([''tmp'', ''x''], EDir),
                ([''tmp'', ''x'', ''r1''], EDir),
                ([''tmp'', ''x'', ''r1'', ''loc''], EFile ''1''),
                ([''tmp'', ''x'', ''r1'', ''ca''], EDir),
                ([''tmp'', ''x'', ''r1'', ''ca'', ''loc''], EFile ''a'')]\<rparr>
   = Some (Inr [[''a'']])"
  by code_simp


section \<open>Enumerating the directories that were created\<close>




end
